theory Spec2Isabelle
  imports Main "HOL-Library.Word" "HOL-Library.While_Combinator"
begin

section \<open>The resource ledger of the traffic system (Banker's algorithm)\<close>

text \<open>
  The class \<^verbatim>\<open>BankersAlgorithm\<close> (BankersAlgorithm.h, BankersAlgorithm.cpp) keeps
  the vectors and matrices of the deadlock-avoidance ledger. Its fields become a record.

  A C++ \<^verbatim>\<open>int\<close> is a 32-bit word: \<open>+\<close> and \<open>-\<close> wrap around, as the compiled
  program does, and \<open>sint\<close> reads the signed value, which is what the comparisons of
  the source compare. Where a claim is about the integers themselves, its theorem says
  which sums have to fit into 32 bits. Sizes and indices are natural numbers: the
  constructor cannot build vectors of a negative size, and a negative index is out of
  range. The mutex \<^verbatim>\<open>mtx\<close> serialises the public operations; each operation is
  modelled as one atomic state transformer and the mutex itself is left out.

  \<^verbatim>\<open>std::vector::operator[]\<close> with an index out of range is undefined in C++.
  The operations below use \<open>xs ! i\<close> and \<open>xs[i := v]\<close>; the theorems about the
  values they compute assume the shape invariant \<open>wf_ledger\<close>, the index of an
  existing role and vectors of \<open>num_resources\<close> entries, where every access of the
  source is in range.
\<close>

type_synonym int32 = "32 word"

record ledger =
  num_resources :: nat
  num_processes :: nat
  total_resources :: "int32 list"
  available :: "int32 list"
  maximum :: "int32 list list"
  allocation :: "int32 list list"
  need :: "int32 list list"

text \<open>The constructor: every vector and matrix is filled with zeros.\<close>

definition BankersAlgorithm :: "nat \<Rightarrow> nat \<Rightarrow> ledger" where
  "BankersAlgorithm resources processes =
     \<lparr>num_resources = resources, num_processes = processes,
      total_resources = replicate resources 0,
      available = replicate resources 0,
      maximum = replicate processes (replicate resources 0),
      allocation = replicate processes (replicate resources 0),
      need = replicate processes (replicate resources 0)\<rparr>"

definition setTotalResources :: "ledger \<Rightarrow> int32 list \<Rightarrow> ledger" where
  "setTotalResources s totals = s\<lparr>total_resources := totals, available := totals\<rparr>"

text \<open>
  \<^verbatim>\<open>setMaximum\<close> returns \<^verbatim>\<open>void\<close>: it stores the row and recomputes the
  role's need in a loop over the resource kinds. It has no check and no failure path.
\<close>

definition setMaximum_step :: "nat \<Rightarrow> nat \<Rightarrow> ledger \<Rightarrow> ledger" where
  "setMaximum_step process i s =
     s\<lparr>need := (need s)[process :=
          (need s ! process)[i := maximum s ! process ! i - allocation s ! process ! i]]\<rparr>"

definition setMaximum :: "ledger \<Rightarrow> nat \<Rightarrow> int32 list \<Rightarrow> ledger" where
  "setMaximum s process max_demand =
     fold (setMaximum_step process) [0..<num_resources s]
       (s\<lparr>maximum := (maximum s)[process := max_demand]\<rparr>)"

subsection \<open>The safety check\<close>

text \<open>
  \<^verbatim>\<open>isSafe\<close> is a non-const member function: its body can reach every field of the
  object. The state of its body is therefore the object together with the three locals
  \<^verbatim>\<open>work\<close>, \<^verbatim>\<open>finish\<close> and \<^verbatim>\<open>progress\<close>.
\<close>

record frame =
  this :: ledger
  work :: "int32 list"
  finish :: "bool list"
  progress :: bool

text \<open>
  The inner loop that computes \<^verbatim>\<open>can_finish\<close>: it leaves with \<^verbatim>\<open>false\<close> at the
  first resource kind whose need exceeds the work vector (the \<^verbatim>\<open>break\<close>).
\<close>

fun can_finish :: "int32 list \<Rightarrow> int32 list \<Rightarrow> nat list \<Rightarrow> bool" where
  "can_finish need_p wrk [] = True"
| "can_finish need_p wrk (r # rs) =
     (if sint (need_p ! r) > sint (wrk ! r) then False else can_finish need_p wrk rs)"

text \<open>The loop \<^verbatim>\<open>work[r] += allocation[p][r]\<close>.\<close>

definition add_allocation :: "int32 list \<Rightarrow> nat \<Rightarrow> int32 list \<Rightarrow> int32 list" where
  "add_allocation alloc_p n wrk = fold (\<lambda>r w. w[r := w ! r + alloc_p ! r]) [0..<n] wrk"

text \<open>The body of the loop over the roles, for one role \<open>p\<close>.\<close>

definition scan_role :: "nat \<Rightarrow> frame \<Rightarrow> frame" where
  "scan_role p f =
     (if \<not> finish f ! p then
        (if can_finish (need (this f) ! p) (work f) [0..<num_resources (this f)] then
           f\<lparr>work := add_allocation (allocation (this f) ! p) (num_resources (this f)) (work f),
             finish := (finish f)[p := True],
             progress := True\<rparr>
         else f)
      else f)"

text \<open>One pass of the \<^verbatim>\<open>while\<close> loop: reset \<^verbatim>\<open>progress\<close>, then visit every role.\<close>

definition scan_pass :: "frame \<Rightarrow> frame" where
  "scan_pass f = fold scan_role [0..<num_processes (this f)] (f\<lparr>progress := False\<rparr>)"

definition isSafe_init :: "ledger \<Rightarrow> frame" where
  "isSafe_init s =
     \<lparr>this = s, work = available s, finish = replicate (num_processes s) False,
      progress = True\<rparr>"

text \<open>
  The \<^verbatim>\<open>while (progress)\<close> loop is \<open>while_option\<close>: \<open>None\<close> stands for a loop
  that never ends. The result is the value of \<^verbatim>\<open>std::all_of\<close> over \<^verbatim>\<open>finish\<close>,
  together with the object as the call leaves it.
\<close>

definition isSafe :: "ledger \<Rightarrow> (bool \<times> ledger) option" where
  "isSafe s =
     map_option (\<lambda>f. (list_all (\<lambda>b. b) (finish f), this f))
       (while_option progress scan_pass (isSafe_init s))"

subsection \<open>Request and release\<close>

text \<open>
  The two checking loops of \<^verbatim>\<open>requestResources\<close> return \<^verbatim>\<open>false\<close> at the first
  resource kind where the request exceeds the bound (the role's need, then the
  available vector).
\<close>

fun exceeds :: "int32 list \<Rightarrow> int32 list \<Rightarrow> nat list \<Rightarrow> bool" where
  "exceeds request bound [] = False"
| "exceeds request bound (r # rs) =
     (if sint (request ! r) > sint (bound ! r) then True else exceeds request bound rs)"

definition allocate_step :: "nat \<Rightarrow> int32 list \<Rightarrow> nat \<Rightarrow> ledger \<Rightarrow> ledger" where
  "allocate_step process request r s =
     s\<lparr>available := (available s)[r := available s ! r - request ! r],
       allocation := (allocation s)[process :=
          (allocation s ! process)[r := allocation s ! process ! r + request ! r]],
       need := (need s)[process :=
          (need s ! process)[r := need s ! process ! r - request ! r]]\<rparr>"

definition try_allocate :: "ledger \<Rightarrow> nat \<Rightarrow> int32 list \<Rightarrow> ledger" where
  "try_allocate s process request =
     fold (allocate_step process request) [0..<num_resources s] s"

definition rollback_step :: "nat \<Rightarrow> int32 list \<Rightarrow> nat \<Rightarrow> ledger \<Rightarrow> ledger" where
  "rollback_step process request r s =
     s\<lparr>available := (available s)[r := available s ! r + request ! r],
       allocation := (allocation s)[process :=
          (allocation s ! process)[r := allocation s ! process ! r - request ! r]],
       need := (need s)[process :=
          (need s ! process)[r := need s ! process ! r + request ! r]]\<rparr>"

definition rollback :: "ledger \<Rightarrow> nat \<Rightarrow> int32 list \<Rightarrow> ledger" where
  "rollback s process request =
     fold (rollback_step process request) [0..<num_resources s] s"

text \<open>
  \<^verbatim>\<open>requestResources\<close>: the returned pair is the \<^verbatim>\<open>bool\<close> of the source and the
  object after the call; \<open>None\<close> only if the safety check did not return.
\<close>

definition requestResources :: "ledger \<Rightarrow> nat \<Rightarrow> int32 list \<Rightarrow> (bool \<times> ledger) option" where
  "requestResources s process request =
     (if exceeds request (need s ! process) [0..<num_resources s] then Some (False, s)
      else if exceeds request (available s) [0..<num_resources s] then Some (False, s)
      else
        (case isSafe (try_allocate s process request) of
           None \<Rightarrow> None
         | Some (safe, s') \<Rightarrow>
             if safe then Some (True, s')
             else Some (False, rollback s' process request)))"

definition release_step :: "nat \<Rightarrow> int32 list \<Rightarrow> nat \<Rightarrow> ledger \<Rightarrow> ledger" where
  "release_step process release r s =
     s\<lparr>allocation := (allocation s)[process :=
          (allocation s ! process)[r := allocation s ! process ! r - release ! r]],
       available := (available s)[r := available s ! r + release ! r],
       need := (need s)[process :=
          (need s ! process)[r := need s ! process ! r + release ! r]]\<rparr>"

definition releaseResources :: "ledger \<Rightarrow> nat \<Rightarrow> int32 list \<Rightarrow> ledger" where
  "releaseResources s process release =
     fold (release_step process release) [0..<num_resources s] s"

subsection \<open>Shape of a ledger\<close>

text \<open>
  Every vector has \<open>num_resources\<close> entries and every matrix \<open>num_processes\<close> rows
  of \<open>num_resources\<close> entries. The constructor establishes this, and the operations
  keep it when they are given vectors of \<open>num_resources\<close> entries.
\<close>

definition rows_ok :: "nat \<Rightarrow> nat \<Rightarrow> int32 list list \<Rightarrow> bool" where
  "rows_ok np nr m = (length m = np \<and> list_all (\<lambda>row. length row = nr) m)"

definition wf_ledger :: "ledger \<Rightarrow> bool" where
  "wf_ledger s =
     (length (total_resources s) = num_resources s \<and>
      length (available s) = num_resources s \<and>
      rows_ok (num_processes s) (num_resources s) (maximum s) \<and>
      rows_ok (num_processes s) (num_resources s) (allocation s) \<and>
      rows_ok (num_processes s) (num_resources s) (need s))"

subsection \<open>The notions of the specification\<close>

text \<open>
  The state after the tentative commit of a request and the state after a release, in
  the words of the specification: whole vectors are added and subtracted.
\<close>

definition tentative_commit :: "ledger \<Rightarrow> nat \<Rightarrow> int32 list \<Rightarrow> ledger" where
  "tentative_commit s p req =
     s\<lparr>available := map2 (-) (available s) req,
       allocation := (allocation s)[p := map2 (+) (allocation s ! p) req],
       need := (need s)[p := map2 (-) (need s ! p) req]\<rparr>"

definition released :: "ledger \<Rightarrow> nat \<Rightarrow> int32 list \<Rightarrow> ledger" where
  "released s p rel =
     s\<lparr>allocation := (allocation s)[p := map2 (-) (allocation s ! p) rel],
       available := map2 (+) (available s) rel,
       need := (need s)[p := map2 (+) (need s ! p) rel]\<rparr>"

text \<open>
  When a request is granted, in the words of the specification: it stays within the
  role's need and within the available vector, and the safety check returns
  \<^verbatim>\<open>true\<close> on the tentatively committed state.
\<close>

definition grantable :: "ledger \<Rightarrow> nat \<Rightarrow> int32 list \<Rightarrow> bool" where
  "grantable s p req =
     (list_all (\<lambda>r. sint (req ! r) \<le> sint (need s ! p ! r)) [0..<num_resources s] \<and>
      list_all (\<lambda>r. sint (req ! r) \<le> sint (available s ! r)) [0..<num_resources s] \<and>
      map_option fst (isSafe (tentative_commit s p req)) = Some True)"

text \<open>
  A run of the public operations on one ledger; the value a request returns is dropped.
  \<open>call_ok\<close> says that a call names an existing role and passes a vector of
  \<open>num_resources\<close> entries.
\<close>

datatype call = SetMaximum nat "int32 list" | Request nat "int32 list" | Release nat "int32 list"

fun apply_call :: "ledger \<Rightarrow> call \<Rightarrow> ledger option" where
  "apply_call s (SetMaximum p max_demand) = Some (setMaximum s p max_demand)"
| "apply_call s (Request p request) = map_option snd (requestResources s p request)"
| "apply_call s (Release p release) = Some (releaseResources s p release)"

fun run :: "ledger \<Rightarrow> call list \<Rightarrow> ledger option" where
  "run s [] = Some s"
| "run s (c # cs) = (case apply_call s c of None \<Rightarrow> None | Some s' \<Rightarrow> run s' cs)"

fun call_ok :: "nat \<Rightarrow> nat \<Rightarrow> call \<Rightarrow> bool" where
  "call_ok nr np (SetMaximum p v) = (p < np \<and> length v = nr)"
| "call_ok nr np (Request p v) = (p < np \<and> length v = nr)"
| "call_ok nr np (Release p v) = (p < np \<and> length v = nr)"

text \<open>
  The caller contract of the specification, checked along a run: every request is
  non-negative, and every release is non-negative and stays within what the role holds
  at that moment.
\<close>

fun contract_call :: "ledger \<Rightarrow> call \<Rightarrow> bool" where
  "contract_call s (SetMaximum p v) = (p < num_processes s \<and> length v = num_resources s)"
| "contract_call s (Request p v) =
     (p < num_processes s \<and> length v = num_resources s \<and> list_all (\<lambda>x. 0 \<le> sint x) v)"
| "contract_call s (Release p v) =
     (p < num_processes s \<and> length v = num_resources s \<and>
      list_all (\<lambda>r. 0 \<le> sint (v ! r) \<and> sint (v ! r) \<le> sint (allocation s ! p ! r))
        [0..<num_resources s])"

fun contract_run :: "ledger \<Rightarrow> call list \<Rightarrow> bool" where
  "contract_run s [] = True"
| "contract_run s (c # cs) =
     (contract_call s c \<and>
      (case apply_call s c of None \<Rightarrow> False | Some s' \<Rightarrow> contract_run s' cs))"

text \<open>
  Conservation. \<open>conserved\<close> is the equation in the arithmetic of the program: for
  every resource kind, the free units plus the units allocated to all roles are the
  total, as 32-bit sums. \<open>held_units\<close> is the same sum over the integers,
  \<open>sums_fit\<close> says that it fits into 32 bits for every resource kind, and
  \<open>conserved_int\<close> is the equation over the integers.
\<close>

definition column_sum :: "int32 list list \<Rightarrow> nat \<Rightarrow> int32" where
  "column_sum m r = sum_list (map (\<lambda>row. row ! r) m)"

definition conserved :: "ledger \<Rightarrow> bool" where
  "conserved s =
     list_all (\<lambda>r. available s ! r + column_sum (allocation s) r = total_resources s ! r)
       [0..<num_resources s]"

definition fits_int :: "int \<Rightarrow> bool" where
  "fits_int k = (- (2 ^ 31) \<le> k \<and> k < 2 ^ 31)"

definition held_units :: "ledger \<Rightarrow> nat \<Rightarrow> int" where
  "held_units s r =
     sint (available s ! r) + sum_list (map (\<lambda>row. sint (row ! r)) (allocation s))"

definition sums_fit :: "ledger \<Rightarrow> bool" where
  "sums_fit s = list_all (\<lambda>r. fits_int (held_units s r)) [0..<num_resources s]"

definition conserved_int :: "ledger \<Rightarrow> bool" where
  "conserved_int s =
     list_all (\<lambda>r. held_units s r = sint (total_resources s ! r)) [0..<num_resources s]"

text \<open>
  A completion ordering, over the integers: the roles, each once, in an order in which
  every role finds its need covered by the work vector, which starts as
  \<open>available\<close> and grows by the allocation of each role that completes.
\<close>

fun completes :: "ledger \<Rightarrow> int list \<Rightarrow> nat list \<Rightarrow> bool" where
  "completes s w [] = True"
| "completes s w (p # ps) =
     (list_all (\<lambda>r. sint (need s ! p ! r) \<le> w ! r) [0..<num_resources s] \<and>
      completes s (map2 (+) w (map sint (allocation s ! p))) ps)"

definition completion_order :: "ledger \<Rightarrow> nat list \<Rightarrow> bool" where
  "completion_order s ps =
     (distinct ps \<and> set ps = {0..<num_processes s} \<and>
      completes s (map sint (available s)) ps)"

text \<open>No entry of the allocation matrix is negative.\<close>

definition nonneg_allocation :: "ledger \<Rightarrow> bool" where
  "nonneg_allocation s = list_all (list_all (\<lambda>x. 0 \<le> sint x)) (allocation s)"

subsection \<open>Auxiliary notions for the proofs\<close>

text \<open>
  Every loop over the resource kinds rewrites one vector entry by entry. \<open>vec_upd\<close>
  is that loop for one vector, stopped after \<open>k\<close> entries.
\<close>

definition vec_upd :: "('a \<Rightarrow> 'a \<Rightarrow> 'a) \<Rightarrow> nat \<Rightarrow> 'a list \<Rightarrow> 'a list \<Rightarrow> 'a list" where
  "vec_upd g k a b = fold (\<lambda>r w. w[r := g (w ! r) (b ! r)]) [0..<k] a"

text \<open>The number of roles not yet marked finished: the measure of the scan loop.\<close>

definition unfinished :: "frame \<Rightarrow> nat" where
  "unfinished f = length (filter (\<lambda>b. \<not> b) (finish f))"

text \<open>
  The scan in the arithmetic of the program: \<open>work_after\<close> is the work vector after
  the roles \<open>ps\<close> completed in that order, \<open>scan_completes\<close> says that each of
  them found its need covered when its turn came. The invariant of the scan loop: the
  roles marked finished so far, in the order in which they were marked, completed one
  after the other from \<open>available\<close>, and \<open>work\<close> is the work vector they left.
  \<open>stuck\<close> holds when no unfinished role can finish.
\<close>

definition work_after :: "ledger \<Rightarrow> int32 list \<Rightarrow> nat list \<Rightarrow> int32 list" where
  "work_after s w ps = fold (\<lambda>p w. map2 (+) w (allocation s ! p)) ps w"

fun scan_completes :: "ledger \<Rightarrow> int32 list \<Rightarrow> nat list \<Rightarrow> bool" where
  "scan_completes s w [] = True"
| "scan_completes s w (p # ps) =
     (list_all (\<lambda>r. sint (need s ! p ! r) \<le> sint (w ! r)) [0..<num_resources s] \<and>
      scan_completes s (map2 (+) w (allocation s ! p)) ps)"

definition scan_inv :: "ledger \<Rightarrow> frame \<Rightarrow> bool" where
  "scan_inv s f =
     (this f = s \<and> length (finish f) = num_processes s \<and>
      (\<exists>ord. distinct ord \<and> set ord = {p. p < num_processes s \<and> finish f ! p} \<and>
         scan_completes s (available s) ord \<and> work f = work_after s (available s) ord))"

definition stuck :: "frame \<Rightarrow> bool" where
  "stuck f =
     (\<forall>p<num_processes (this f). finish f ! p \<or>
        \<not> can_finish (need (this f) ! p) (work f) [0..<num_resources (this f)])"

text \<open>The invariant of a run: the shape, conservation, and the two sizes.\<close>

definition ledger_inv :: "nat \<Rightarrow> nat \<Rightarrow> ledger \<Rightarrow> bool" where
  "ledger_inv nr np s =
     (wf_ledger s \<and> conserved s \<and> num_resources s = nr \<and> num_processes s = np)"

text \<open>
  What a run within the caller contract keeps: the shape, no negative allocation,
  conservation over the integers, and no negative entry of \<open>available\<close>.
\<close>

definition in_contract :: "ledger \<Rightarrow> bool" where
  "in_contract s =
     (wf_ledger s \<and> nonneg_allocation s \<and> conserved_int s \<and>
      list_all (\<lambda>x. 0 \<le> sint x) (available s))"

subsection \<open>Concrete ledgers\<close>

text \<open>
  The scenario of the specification: two roles, two resource kinds, totals \<open>[2, 1]\<close>,
  maxima \<open>[2, 1]\<close> for P1 (role 0) and \<open>[1, 1]\<close> for P2 (role 1); and the ledgers
  after P1 was granted \<open>[1, 0]\<close> and after P2 was then granted \<open>[1, 1]\<close>.
\<close>

definition scenario :: ledger where
  "scenario =
     setMaximum (setMaximum (setTotalResources (BankersAlgorithm 2 2) [2, 1]) 0 [2, 1]) 1 [1, 1]"

definition after_P1 :: ledger where
  "after_P1 =
     \<lparr>num_resources = 2, num_processes = 2, total_resources = [2, 1], available = [1, 1],
      maximum = [[2, 1], [1, 1]], allocation = [[1, 0], [0, 0]], need = [[1, 1], [1, 1]]\<rparr>"

definition after_P2 :: ledger where
  "after_P2 =
     \<lparr>num_resources = 2, num_processes = 2, total_resources = [2, 1], available = [0, 0],
      maximum = [[2, 1], [1, 1]], allocation = [[1, 0], [1, 1]], need = [[1, 1], [0, 0]]\<rparr>"

text \<open>
  One resource kind with two units, one of them held by role 0, which may ask for one
  more; role 1 holds nothing and may ask for both.
\<close>

definition contended :: ledger where
  "contended =
     \<lparr>num_resources = 1, num_processes = 2, total_resources = [2], available = [1],
      maximum = [[2], [2]], allocation = [[1], [0]], need = [[1], [2]]\<rparr>"

text \<open>
  One role holding the only unit of one resource kind, reached by one granted request.
\<close>

definition held_one :: ledger where
  "held_one =
     \<lparr>num_resources = 1, num_processes = 1, total_resources = [1], available = [0],
      maximum = [[1]], allocation = [[1]], need = [[0]]\<rparr>"

text \<open>
  One resource kind with no unit at all and three roles with maxima 2, 1 and 0. Role 2
  was granted the request \<open>-2\<close>, then roles 0 and 1 were granted one unit each.
\<close>

definition negative_grant :: ledger where
  "negative_grant =
     \<lparr>num_resources = 1, num_processes = 3, total_resources = [0], available = [0],
      maximum = [[2], [1], [0]], allocation = [[1], [1], [- 2]], need = [[1], [0], [2]]\<rparr>"

text \<open>
  Two resource kinds of one unit each, two roles that may each ask for both; role 0
  holds both units.
\<close>

definition both_held :: ledger where
  "both_held =
     \<lparr>num_resources = 2, num_processes = 2, total_resources = [1, 1], available = [0, 0],
      maximum = [[1, 1], [1, 1]], allocation = [[1, 1], [0, 0]], need = [[0, 0], [1, 1]]\<rparr>"

text \<open>
  A ledger with non-negative entries whose sum of \<open>available\<close> and allocations
  does not fit into 32 bits: it is conserved in the arithmetic of the program only.
\<close>

definition wrapped_scan :: ledger where
  "wrapped_scan =
     \<lparr>num_resources = 1, num_processes = 2, total_resources = [- 2147483648],
      available = [2147483647], maximum = [[2147483647], [2147483647]],
      allocation = [[1], [0]], need = [[2147483646], [2147483647]]\<rparr>"

section \<open>The loops over the resource kinds\<close>

lemma vec_upd_0: "vec_upd g 0 a b = a"
  by (simp add: vec_upd_def)

lemma vec_upd_Suc:
  "vec_upd g (Suc k) a b = (vec_upd g k a b)[k := g (vec_upd g k a b ! k) (b ! k)]"
  by (simp add: vec_upd_def)

lemma length_vec_upd: "length (vec_upd g k a b) = length a"
  by (induction k) (simp_all add: vec_upd_0 vec_upd_Suc)

lemma nth_vec_upd:
  "i < length a \<Longrightarrow> vec_upd g k a b ! i = (if i < k then g (a ! i) (b ! i) else a ! i)"
proof (induction k)
  case 0
  then show ?case by (simp add: vec_upd_0)
next
  case (Suc k)
  then show ?case
    by (cases "i = k") (simp_all add: vec_upd_Suc length_vec_upd)
qed

lemma vec_upd_map2:
  assumes "length a = k" and "length b = k"
  shows "vec_upd g k a b = map2 g a b"
proof (rule nth_equalityI)
  show "length (vec_upd g k a b) = length (map2 g a b)"
    using assms by (simp add: length_vec_upd)
next
  fix i assume "i < length (vec_upd g k a b)"
  then have "i < k" using assms by (simp add: length_vec_upd)
  then show "vec_upd g k a b ! i = map2 g a b ! i"
    using assms by (simp add: nth_vec_upd)
qed

lemma add_allocation_vec_upd: "add_allocation a n w = vec_upd (+) n w a"
  by (simp add: add_allocation_def vec_upd_def)

lemma fold_allocate_step:
  assumes "p < length (allocation s)" and "p < length (need s)"
  shows "fold (allocate_step p req) [0..<k] s =
     s\<lparr>available := vec_upd (-) k (available s) req,
       allocation := (allocation s)[p := vec_upd (+) k (allocation s ! p) req],
       need := (need s)[p := vec_upd (-) k (need s ! p) req]\<rparr>"
  using assms
proof (induction k)
  case 0
  then show ?case by (simp add: vec_upd_0)
next
  case (Suc k)
  then show ?case
    by (simp add: allocate_step_def vec_upd_Suc)
qed

lemma fold_rollback_step:
  assumes "p < length (allocation s)" and "p < length (need s)"
  shows "fold (rollback_step p req) [0..<k] s =
     s\<lparr>available := vec_upd (+) k (available s) req,
       allocation := (allocation s)[p := vec_upd (-) k (allocation s ! p) req],
       need := (need s)[p := vec_upd (+) k (need s ! p) req]\<rparr>"
  using assms
proof (induction k)
  case 0
  then show ?case by (simp add: vec_upd_0)
next
  case (Suc k)
  then show ?case
    by (simp add: rollback_step_def vec_upd_Suc)
qed

lemma fold_release_step:
  assumes "p < length (allocation s)" and "p < length (need s)"
  shows "fold (release_step p req) [0..<k] s =
     s\<lparr>available := vec_upd (+) k (available s) req,
       allocation := (allocation s)[p := vec_upd (-) k (allocation s ! p) req],
       need := (need s)[p := vec_upd (+) k (need s ! p) req]\<rparr>"
  using assms
proof (induction k)
  case 0
  then show ?case by (simp add: vec_upd_0)
next
  case (Suc k)
  then show ?case
    by (simp add: release_step_def vec_upd_Suc)
qed

lemma fold_setMaximum_step:
  assumes "p < length (need s)"
  shows "fold (setMaximum_step p) [0..<k] s =
     s\<lparr>need := (need s)[p := fold (\<lambda>i w. w[i := maximum s ! p ! i - allocation s ! p ! i]) [0..<k] (need s ! p)]\<rparr>"
  using assms
proof (induction k)
  case 0
  then show ?case by simp
next
  case (Suc k)
  then show ?case
    by (simp add: setMaximum_step_def)
qed

section \<open>Request, rollback and release as vector operations\<close>

lemma rows_okD:
  "rows_ok np nr m \<Longrightarrow> length m = np"
  "rows_ok np nr m \<Longrightarrow> p < np \<Longrightarrow> length (m ! p) = nr"
  by (simp_all add: rows_ok_def list_all_length)

lemma rows_ok_update:
  "rows_ok np nr m \<Longrightarrow> length row = nr \<Longrightarrow> rows_ok np nr (m[p := row])"
  by (cases "p < length m") (auto simp: rows_ok_def list_all_length nth_list_update)

lemma wf_ledgerD:
  assumes "wf_ledger s"
  shows "length (total_resources s) = num_resources s"
    and "length (available s) = num_resources s"
    and "length (maximum s) = num_processes s"
    and "length (allocation s) = num_processes s"
    and "length (need s) = num_processes s"
    and "p < num_processes s \<Longrightarrow> length (maximum s ! p) = num_resources s"
    and "p < num_processes s \<Longrightarrow> length (allocation s ! p) = num_resources s"
    and "p < num_processes s \<Longrightarrow> length (need s ! p) = num_resources s"
  using assms by (auto simp: wf_ledger_def rows_okD)

lemma try_allocate_eq:
  assumes "wf_ledger s" and "p < num_processes s" and "length req = num_resources s"
  shows "try_allocate s p req = tentative_commit s p req"
  using assms
  by (simp add: try_allocate_def tentative_commit_def fold_allocate_step wf_ledgerD vec_upd_map2)

lemma rollback_eq:
  assumes "wf_ledger s" and "p < num_processes s" and "length req = num_resources s"
  shows "rollback s p req =
     s\<lparr>available := map2 (+) (available s) req,
       allocation := (allocation s)[p := map2 (-) (allocation s ! p) req],
       need := (need s)[p := map2 (+) (need s ! p) req]\<rparr>"
  using assms
  by (simp add: rollback_def fold_rollback_step wf_ledgerD vec_upd_map2)

lemma releaseResources_eq:
  assumes "wf_ledger s" and "p < num_processes s" and "length rel = num_resources s"
  shows "releaseResources s p rel = released s p rel"
  using assms
  by (simp add: releaseResources_def released_def fold_release_step wf_ledgerD vec_upd_map2)

lemma wf_tentative_commit:
  assumes "wf_ledger s" and "p < num_processes s" and "length req = num_resources s"
  shows "wf_ledger (tentative_commit s p req)"
  using assms
  by (auto simp: wf_ledger_def tentative_commit_def rows_ok_update rows_okD)

lemma wf_released:
  assumes "wf_ledger s" and "p < num_processes s" and "length rel = num_resources s"
  shows "wf_ledger (released s p rel)"
  using assms
  by (auto simp: wf_ledger_def released_def rows_ok_update rows_okD)

lemma map2_sub_add: "length a = length b \<Longrightarrow> map2 (+) (map2 (-) a b) b = (a :: int32 list)"
  by (rule nth_equalityI) simp_all

lemma map2_add_sub: "length a = length b \<Longrightarrow> map2 (-) (map2 (+) a b) b = (a :: int32 list)"
  by (rule nth_equalityI) simp_all

lemma rollback_tentative_commit:
  assumes "wf_ledger s" and "p < num_processes s" and "length req = num_resources s"
  shows "rollback (tentative_commit s p req) p req = s"
proof -
  have "rollback (tentative_commit s p req) p req =
      (tentative_commit s p req)\<lparr>available := map2 (+) (available (tentative_commit s p req)) req,
       allocation := (allocation (tentative_commit s p req))[p := map2 (-) (allocation (tentative_commit s p req) ! p) req],
       need := (need (tentative_commit s p req))[p := map2 (+) (need (tentative_commit s p req) ! p) req]\<rparr>"
    using assms by (intro rollback_eq wf_tentative_commit) (simp_all add: tentative_commit_def)
  also have "\<dots> = s"
    using assms by (simp add: tentative_commit_def wf_ledgerD map2_sub_add map2_add_sub)
  finally show ?thesis .
qed

lemma released_tentative_commit:
  assumes "wf_ledger s" and "p < num_processes s" and "length req = num_resources s"
  shows "released (tentative_commit s p req) p req = s"
  using assms by (simp add: released_def tentative_commit_def wf_ledgerD map2_sub_add map2_add_sub)

lemma can_finish_iff:
  "can_finish need_p w rs = (\<forall>r\<in>set rs. sint (need_p ! r) \<le> sint (w ! r))"
  by (induction rs) auto

lemma setMaximum_eq:
  assumes "wf_ledger s" and "p < num_processes s" and "length md = num_resources s"
  shows "setMaximum s p md =
     s\<lparr>maximum := (maximum s)[p := md],
       need := (need s)[p := map2 (-) md (allocation s ! p)]\<rparr>"
proof -
  let ?s1 = "s\<lparr>maximum := (maximum s)[p := md]\<rparr>"
  let ?n = "num_resources s"
  have len: "length (need s ! p) = ?n" "length (allocation s ! p) = ?n" "p < length (need s)"
    "p < length (maximum s)"
    using assms by (simp_all add: wf_ledgerD)
  have loop: "\<And>w. length w = ?n \<Longrightarrow> k \<le> ?n \<Longrightarrow>
      fold (\<lambda>i w. w[i := md ! i - allocation s ! p ! i]) [0..<k] w =
      take k (map2 (-) md (allocation s ! p)) @ drop k w" for k
  proof (induction k)
    case 0
    then show ?case by simp
  next
    case (Suc k)
    have "k < ?n" using Suc.prems by simp
    then show ?case
      using Suc len assms(3)
      by (intro nth_equalityI) (auto simp: nth_list_update nth_append less_Suc_eq)
  qed
  have "setMaximum s p md =
      ?s1\<lparr>need := (need s)[p := fold (\<lambda>i w. w[i := md ! i - allocation s ! p ! i]) [0..<?n] (need s ! p)]\<rparr>"
    using len by (simp add: setMaximum_def fold_setMaximum_step)
  also have "fold (\<lambda>i w. w[i := md ! i - allocation s ! p ! i]) [0..<?n] (need s ! p) =
      map2 (-) md (allocation s ! p)"
    using loop[of "need s ! p" ?n] len assms(3) by simp
  finally show ?thesis by simp
qed

section \<open>The scan loop of the safety check ends\<close>

text \<open>
  The visit of a role and a pass leave the object and the length of \<^verbatim>\<open>finish\<close>
  as they are, and never reset \<^verbatim>\<open>progress\<close>.
\<close>

lemma this_scan_role: "this (scan_role p f) = this f"
  by (simp add: scan_role_def)

lemma length_finish_scan_role: "length (finish (scan_role p f)) = length (finish f)"
  by (simp add: scan_role_def)

lemma progress_scan_role: "progress f \<Longrightarrow> progress (scan_role p f)"
  by (simp add: scan_role_def)

lemma this_fold_scan_role: "this (fold scan_role ps f) = this f"
  by (induction ps arbitrary: f) (simp_all add: this_scan_role)

lemma length_finish_fold_scan_role: "length (finish (fold scan_role ps f)) = length (finish f)"
  by (induction ps arbitrary: f) (simp_all add: length_finish_scan_role)

lemma this_scan_pass: "this (scan_pass f) = this f"
  by (simp add: scan_pass_def this_fold_scan_role)

lemma length_finish_scan_pass: "length (finish (scan_pass f)) = length (finish f)"
  by (simp add: scan_pass_def length_finish_fold_scan_role)

lemma this_funpow_scan_pass: "this ((scan_pass ^^ k) f) = this f"
  by (induction k) (simp_all add: this_scan_pass)

lemma length_finish_funpow_scan_pass: "length (finish ((scan_pass ^^ k) f)) = length (finish f)"
  by (induction k) (simp_all add: length_finish_scan_pass)

text \<open>
  The measure: the number of unfinished roles plus one while \<^verbatim>\<open>progress\<close> is
  set. Marking a role lowers the first summand by one, so a visit never raises the
  measure, and a pass, which starts by resetting \<^verbatim>\<open>progress\<close>, lowers it.
\<close>

lemma filter_not_mark:
  "i < length xs \<Longrightarrow> \<not> xs ! i \<Longrightarrow>
     Suc (length (filter (\<lambda>b. \<not> b) (xs[i := True]))) = length (filter (\<lambda>b. \<not> b) xs)"
proof (induction xs arbitrary: i)
  case Nil
  then show ?case by simp
next
  case (Cons x xs)
  then show ?case by (cases i) simp_all
qed

lemma unfinished_scan_role:
  assumes "p < length (finish f)"
  shows "unfinished (scan_role p f) + of_bool (progress (scan_role p f))
           \<le> unfinished f + of_bool (progress f)"
proof (cases "\<not> finish f ! p \<and> can_finish (need (this f) ! p) (work f) [0..<num_resources (this f)]")
  case True
  then have "Suc (unfinished (scan_role p f)) = unfinished f"
    using assms by (simp add: scan_role_def unfinished_def filter_not_mark)
  moreover have "progress (scan_role p f)"
    using True by (simp add: scan_role_def)
  ultimately show ?thesis by simp
next
  case False
  then have "scan_role p f = f" by (auto simp: scan_role_def)
  then show ?thesis by simp
qed

lemma unfinished_fold_scan_role:
  assumes "\<forall>p\<in>set ps. p < length (finish f)"
  shows "unfinished (fold scan_role ps f) + of_bool (progress (fold scan_role ps f))
           \<le> unfinished f + of_bool (progress f)"
  using assms
proof (induction ps arbitrary: f)
  case Nil
  then show ?case by simp
next
  case (Cons p ps)
  have "unfinished (fold scan_role ps (scan_role p f))
          + of_bool (progress (fold scan_role ps (scan_role p f)))
        \<le> unfinished (scan_role p f) + of_bool (progress (scan_role p f))"
    using Cons.prems by (intro Cons.IH) (simp add: length_finish_scan_role)
  also have "\<dots> \<le> unfinished f + of_bool (progress f)"
    using Cons.prems by (intro unfinished_scan_role) simp
  finally show ?case by simp
qed

lemma unfinished_scan_pass:
  assumes "length (finish f) = num_processes (this f)"
  shows "unfinished (scan_pass f) + of_bool (progress (scan_pass f)) \<le> unfinished f"
proof -
  have "unfinished (scan_pass f) + of_bool (progress (scan_pass f))
      \<le> unfinished (f\<lparr>progress := False\<rparr>) + of_bool (progress (f\<lparr>progress := False\<rparr>))"
    unfolding scan_pass_def using assms by (intro unfinished_fold_scan_role) simp
  then show ?thesis by (simp add: unfinished_def)
qed

lemma scan_pass_marks:
  assumes "length (finish f) = num_processes (this f)" and "progress (scan_pass f)"
  shows "unfinished (scan_pass f) < unfinished f"
  using unfinished_scan_pass[OF assms(1)] assms(2) by simp

lemma unfinished_isSafe_init: "unfinished (isSafe_init s) = num_processes s"
  by (simp add: unfinished_def isSafe_init_def)

text \<open>
  After \<open>j\<close> passes that all started with \<^verbatim>\<open>progress\<close> set, the measure has
  dropped by \<open>j\<close>; so the loop condition fails after at most
  \<open>unfinished f + 1\<close> passes, and \<open>while_option\<close> returns the frame of the first
  such pass.
\<close>

lemma pass_budget:
  assumes "length (finish f) = num_processes (this f)"
    and "\<forall>i<j. progress ((scan_pass ^^ i) f)"
  shows "unfinished ((scan_pass ^^ j) f) + of_bool (progress ((scan_pass ^^ j) f)) + j
           \<le> unfinished f + 1"
  using assms(2)
proof (induction j)
  case 0
  then show ?case by simp
next
  case (Suc j)
  let ?g = "(scan_pass ^^ j) f"
  have len: "length (finish ?g) = num_processes (this ?g)"
    using assms(1) by (simp add: length_finish_funpow_scan_pass this_funpow_scan_pass)
  have "progress ?g" using Suc.prems by simp
  moreover have "unfinished ?g + of_bool (progress ?g) + j \<le> unfinished f + 1"
    using Suc by simp
  moreover have "unfinished (scan_pass ?g) + of_bool (progress (scan_pass ?g)) \<le> unfinished ?g"
    using len by (rule unfinished_scan_pass)
  ultimately show ?case by simp
qed

lemma scan_loop_passes:
  assumes "length (finish f) = num_processes (this f)"
  shows "\<exists>k\<le>unfinished f + 1.
           while_option progress scan_pass f = Some ((scan_pass ^^ k) f) \<and>
           (\<forall>j<k. progress ((scan_pass ^^ j) f)) \<and>
           \<not> progress ((scan_pass ^^ k) f)"
proof -
  let ?P = "\<lambda>k. \<not> progress ((scan_pass ^^ k) f)"
  have ex: "\<exists>k. ?P k"
  proof (rule ccontr)
    assume "\<not> (\<exists>k. ?P k)"
    then have all: "\<forall>i. progress ((scan_pass ^^ i) f)" by simp
    have "unfinished ((scan_pass ^^ (unfinished f + 1)) f)
        + of_bool (progress ((scan_pass ^^ (unfinished f + 1)) f)) + (unfinished f + 1)
        \<le> unfinished f + 1"
      using assms all by (intro pass_budget) simp_all
    moreover have "progress ((scan_pass ^^ (unfinished f + 1)) f)" using all by blast
    ultimately show False by simp
  qed
  define k where "k = (LEAST k. ?P k)"
  have Pk: "?P k" unfolding k_def using ex by (rule LeastI_ex)
  have before: "\<forall>j<k. progress ((scan_pass ^^ j) f)"
    unfolding k_def using not_less_Least by blast
  have "unfinished ((scan_pass ^^ k) f) + of_bool (progress ((scan_pass ^^ k) f)) + k
      \<le> unfinished f + 1"
    using assms before by (rule pass_budget)
  then have "k \<le> unfinished f + 1" by simp
  moreover have "while_option progress scan_pass f = Some ((scan_pass ^^ k) f)"
    using ex by (simp add: while_option_def k_def)
  ultimately show ?thesis using Pk before by blast
qed

lemma isSafe_returns: "\<exists>b. isSafe s = Some (b, s)"
proof -
  have "length (finish (isSafe_init s)) = num_processes (this (isSafe_init s))"
    by (simp add: isSafe_init_def)
  from scan_loop_passes[OF this] obtain k where
    "while_option progress scan_pass (isSafe_init s) = Some ((scan_pass ^^ k) (isSafe_init s))"
    by blast
  then show ?thesis
    by (simp add: isSafe_def this_funpow_scan_pass isSafe_init_def)
qed

section \<open>What the scan loop computes\<close>

lemma work_after_Nil: "work_after s w [] = w"
  by (simp add: work_after_def)

lemma work_after_Cons: "work_after s w (p # ps) = work_after s (map2 (+) w (allocation s ! p)) ps"
  by (simp add: work_after_def)

lemma work_after_snoc: "work_after s w (ps @ [p]) = map2 (+) (work_after s w ps) (allocation s ! p)"
  by (simp add: work_after_def)

lemma completes_snoc:
  "scan_completes s w (ps @ [p]) =
     (scan_completes s w ps \<and>
      list_all (\<lambda>r. sint (need s ! p ! r) \<le> sint (work_after s w ps ! r)) [0..<num_resources s])"
  by (induction ps arbitrary: w) (auto simp: work_after_Nil work_after_Cons)

lemma length_work_after:
  assumes "wf_ledger s" and "length w = num_resources s" and "\<forall>p\<in>set ps. p < num_processes s"
  shows "length (work_after s w ps) = num_resources s"
  using assms(2,3)
proof (induction ps arbitrary: w)
  case Nil
  then show ?case by (simp add: work_after_Nil)
next
  case (Cons p ps)
  then show ?case using assms(1) by (simp add: work_after_Cons wf_ledgerD)
qed

text \<open>
  Soundness of the scan: the roles marked finished, in the order of marking, completed
  one after the other, and \<^verbatim>\<open>work\<close> is what they left.
\<close>

lemma scan_inv_init:
  "scan_inv s (isSafe_init s)"
proof -
  have "distinct ([]::nat list) \<and> set [] = {p. p < num_processes s \<and> finish (isSafe_init s) ! p} \<and>
      scan_completes s (available s) [] \<and> work (isSafe_init s) = work_after s (available s) []"
    by (simp add: isSafe_init_def work_after_Nil)
  then show ?thesis
    unfolding scan_inv_def by (intro conjI exI[of _ "[]"]) (simp_all add: isSafe_init_def)
qed

lemma scan_inv_scan_role:
  assumes wf: "wf_ledger s" and p: "p < num_processes s" and inv: "scan_inv s f"
  shows "scan_inv s (scan_role p f)"
proof (cases "\<not> finish f ! p \<and> can_finish (need (this f) ! p) (work f) [0..<num_resources (this f)]")
  case False
  then have "scan_role p f = f" by (auto simp: scan_role_def)
  then show ?thesis using inv by simp
next
  case True
  from inv obtain ord where th: "this f = s" and len: "length (finish f) = num_processes s"
    and d: "distinct ord" and sd: "set ord = {p. p < num_processes s \<and> finish f ! p}"
    and c: "scan_completes s (available s) ord" and w: "work f = work_after s (available s) ord"
    unfolding scan_inv_def by blast
  have lw: "length (work f) = num_resources s"
    unfolding w using wf sd by (intro length_work_after) (auto simp: wf_ledgerD)
  have role: "scan_role p f =
      f\<lparr>work := map2 (+) (work f) (allocation s ! p), finish := (finish f)[p := True],
        progress := True\<rparr>"
    using True th lw wf p
    by (simp add: scan_role_def add_allocation_vec_upd vec_upd_map2 wf_ledgerD)
  have 1: "distinct (ord @ [p])" using d sd True by simp
  have 2: "set (ord @ [p]) = {q. q < num_processes s \<and> (finish f)[p := True] ! q}"
    using sd p len by (auto simp: nth_list_update)
  have 3: "scan_completes s (available s) (ord @ [p])"
    using c True th w by (simp add: completes_snoc can_finish_iff list_all_iff)
  have 4: "map2 (+) (work f) (allocation s ! p) = work_after s (available s) (ord @ [p])"
    by (simp add: w work_after_snoc)
  show ?thesis
    unfolding scan_inv_def role using th len 1 2 3 4
    by (intro conjI exI[of _ "ord @ [p]"]) simp_all
qed

lemma scan_inv_fold:
  assumes "wf_ledger s" and "\<forall>p\<in>set ps. p < num_processes s" and "scan_inv s f"
  shows "scan_inv s (fold scan_role ps f)"
  using assms(2,3)
proof (induction ps arbitrary: f)
  case Nil
  then show ?case by simp
next
  case (Cons p ps)
  then show ?case using assms(1) by (simp add: scan_inv_scan_role)
qed

lemma scan_inv_scan_pass:
  assumes "wf_ledger s" and "scan_inv s f"
  shows "scan_inv s (scan_pass f)"
proof -
  have "scan_inv s (f\<lparr>progress := False\<rparr>)"
    using assms(2) by (simp add: scan_inv_def)
  moreover have "num_processes (this f) = num_processes s"
    using assms(2) by (simp add: scan_inv_def)
  ultimately show ?thesis
    unfolding scan_pass_def using assms(1) by (intro scan_inv_fold) simp_all
qed

text \<open>
  A pass that ends with \<^verbatim>\<open>progress\<close> unset changed nothing and found no
  unfinished role that can finish.
\<close>

lemma fold_scan_role_no_progress:
  assumes "\<not> progress f"
  shows "progress (fold scan_role [0..<k] f) \<or>
     (fold scan_role [0..<k] f = f \<and>
      (\<forall>p<k. finish f ! p \<or>
         \<not> can_finish (need (this f) ! p) (work f) [0..<num_resources (this f)]))"
proof (induction k)
  case 0
  then show ?case by simp
next
  case (Suc k)
  show ?case
  proof (cases "progress (fold scan_role [0..<k] f)")
    case True
    then show ?thesis by (simp add: progress_scan_role)
  next
    case False
    with Suc have same: "fold scan_role [0..<k] f = f"
      and before: "\<forall>p<k. finish f ! p \<or>
         \<not> can_finish (need (this f) ! p) (work f) [0..<num_resources (this f)]"
      by simp_all
    have step: "fold scan_role [0..<Suc k] f = scan_role k f"
      by (simp add: same)
    show ?thesis
    proof (cases "\<not> finish f ! k \<and> can_finish (need (this f) ! k) (work f) [0..<num_resources (this f)]")
      case True
      then have "progress (scan_role k f)" by (simp add: scan_role_def)
      then show ?thesis unfolding step by simp
    next
      case False
      then have "scan_role k f = f" by (auto simp: scan_role_def)
      moreover have "\<forall>p<Suc k. finish f ! p \<or>
         \<not> can_finish (need (this f) ! p) (work f) [0..<num_resources (this f)]"
        using before False by (auto simp: less_Suc_eq)
      ultimately show ?thesis unfolding step by simp
    qed
  qed
qed

lemma scan_pass_stuck: "progress (scan_pass f) \<or> stuck (scan_pass f)"
proof -
  let ?f0 = "f\<lparr>progress := False\<rparr>"
  have "\<not> progress ?f0" by simp
  from fold_scan_role_no_progress[OF this, of "num_processes (this f)"]
  show ?thesis
    unfolding scan_pass_def stuck_def by auto
qed

lemma scan_loop_result:
  assumes wf: "wf_ledger s"
    and res: "while_option progress scan_pass (isSafe_init s) = Some t"
  shows "scan_inv s t \<and> stuck t"
proof -
  have "scan_inv s t \<and> (progress t \<or> stuck t)"
  proof (rule while_option_rule[where P = "\<lambda>f. scan_inv s f \<and> (progress f \<or> stuck f)", OF _ res])
    show "scan_inv s (isSafe_init s) \<and> (progress (isSafe_init s) \<or> stuck (isSafe_init s))"
      by (simp add: scan_inv_init) (simp add: isSafe_init_def)
  next
    fix f assume "scan_inv s f \<and> (progress f \<or> stuck f)" and "progress f"
    then show "scan_inv s (scan_pass f) \<and> (progress (scan_pass f) \<or> stuck (scan_pass f))"
      using wf by (simp add: scan_inv_scan_pass scan_pass_stuck)
  qed
  moreover have "\<not> progress t" using res by (rule while_option_stop)
  ultimately show ?thesis by simp
qed

section \<open>The scan and the integers\<close>

text \<open>
  From the arithmetic of the program to the integers: a 32-bit sum or difference is
  the integer one when that fits into 32 bits.
\<close>

lemma sint32_bounds: "- (2 ^ 31) \<le> sint (a :: int32)" "sint (a :: int32) < 2 ^ 31"
  using sint_ge[of a] sint_lt[of a] by simp_all

lemma sint_add_fits:
  "fits_int (sint a + sint b) \<Longrightarrow> sint (a + b) = sint a + sint (b :: int32)"
  by (simp add: fits_int_def sint_word_ariths signed_take_bit_int_eq_self)

lemma sint_sub_fits:
  "fits_int (sint a - sint b) \<Longrightarrow> sint (a - b) = sint a - sint (b :: int32)"
  by (simp add: fits_int_def sint_word_ariths signed_take_bit_int_eq_self)

lemma nonneg_allocationD:
  "nonneg_allocation s \<Longrightarrow> wf_ledger s \<Longrightarrow> p < num_processes s \<Longrightarrow> r < num_resources s \<Longrightarrow>
     0 \<le> sint (allocation s ! p ! r)"
  by (simp add: nonneg_allocation_def list_all_length wf_ledgerD)

lemma sums_fitD: "sums_fit s \<Longrightarrow> r < num_resources s \<Longrightarrow> fits_int (held_units s r)"
  by (simp add: sums_fit_def list_all_iff)

text \<open>
  With no negative allocation, the sum over any set of roles is at most the sum over
  all roles; so when \<open>held_units\<close> fits, none of the additions of the scan wraps
  around, and the work vector is \<open>available\<close> plus the allocations of the roles
  completed so far, over the integers.
\<close>

lemma held_units_sum:
  assumes "wf_ledger s"
  shows "held_units s r =
     sint (available s ! r) + (\<Sum>p = 0..<num_processes s. sint (allocation s ! p ! r))"
proof -
  have "sum_list (map (\<lambda>row. sint (row ! r)) (allocation s)) =
      (\<Sum>p = 0..<length (allocation s). map (\<lambda>row. sint (row ! r)) (allocation s) ! p)"
    by (simp add: sum_list_sum_nth)
  also have "\<dots> = (\<Sum>p = 0..<length (allocation s). sint (allocation s ! p ! r))"
    by (intro sum.cong) simp_all
  finally show ?thesis using assms by (simp add: held_units_def wf_ledgerD)
qed

lemma partial_sum_bounds:
  assumes wf: "wf_ledger s" and nn: "nonneg_allocation s"
    and d: "distinct qs" and sub: "set qs \<subseteq> {0..<num_processes s}"
    and r: "r < num_resources s"
  shows "0 \<le> sum_list (map (\<lambda>p. sint (allocation s ! p ! r)) qs)"
    and "sint (available s ! r) + sum_list (map (\<lambda>p. sint (allocation s ! p ! r)) qs)
           \<le> held_units s r"
proof -
  let ?g = "\<lambda>p. sint (allocation s ! p ! r)"
  have pos: "0 \<le> ?g p" if "p < num_processes s" for p
    using nn wf that r by (rule nonneg_allocationD)
  have eq: "sum_list (map ?g qs) = sum ?g (set qs)"
    using d by (simp add: sum_list_distinct_conv_sum_set)
  show "0 \<le> sum_list (map ?g qs)"
    unfolding eq using sub by (intro sum_nonneg pos) auto
  have "sum ?g (set qs) \<le> sum ?g {0..<num_processes s}"
    using sub by (intro sum_mono2) (auto intro: pos)
  then show "sint (available s ! r) + sum_list (map ?g qs) \<le> held_units s r"
    unfolding eq by (simp add: held_units_sum[OF wf])
qed

lemma sint_work_after:
  assumes wf: "wf_ledger s" and nn: "nonneg_allocation s" and fit: "sums_fit s"
    and r: "r < num_resources s"
  shows "distinct qs \<Longrightarrow> set qs \<subseteq> {0..<num_processes s} \<Longrightarrow>
     sint (work_after s (available s) qs ! r) =
       sint (available s ! r) + sum_list (map (\<lambda>p. sint (allocation s ! p ! r)) qs)"
proof (induction qs rule: rev_induct)
  case Nil
  then show ?case by (simp add: work_after_Nil)
next
  case (snoc p qs)
  let ?g = "\<lambda>p. sint (allocation s ! p ! r)"
  have p: "p < num_processes s" and d: "distinct qs" and sub: "set qs \<subseteq> {0..<num_processes s}"
    using snoc.prems by simp_all
  have IH: "sint (work_after s (available s) qs ! r) = sint (available s ! r) + sum_list (map ?g qs)"
    using snoc.IH d sub by simp
  have len: "length (work_after s (available s) qs) = num_resources s"
    using wf sub by (intro length_work_after) (auto simp: wf_ledgerD)
  have nth: "work_after s (available s) (qs @ [p]) ! r
      = work_after s (available s) qs ! r + allocation s ! p ! r"
    using len wf p r by (simp add: work_after_snoc wf_ledgerD)
  have up: "sint (available s ! r) + sum_list (map ?g (qs @ [p])) \<le> held_units s r"
    and lo: "0 \<le> sum_list (map ?g (qs @ [p]))"
    using partial_sum_bounds[OF wf nn snoc.prems(1) snoc.prems(2) r] by simp_all
  have "fits_int (held_units s r)" using fit r by (rule sums_fitD)
  then have "fits_int (sint (work_after s (available s) qs ! r) + sint (allocation s ! p ! r))"
    using up lo sint32_bounds(1)[of "available s ! r"] by (simp add: fits_int_def IH)
  then show ?case by (simp add: nth sint_add_fits IH)
qed

lemma work_after_mono:
  assumes wf: "wf_ledger s" and nn: "nonneg_allocation s" and fit: "sums_fit s"
    and dp: "distinct pre" and d: "distinct ord" and sub: "set pre \<subseteq> set ord"
    and ord: "set ord \<subseteq> {0..<num_processes s}"
    and r: "r < num_resources s"
  shows "sint (work_after s (available s) pre ! r) \<le> sint (work_after s (available s) ord ! r)"
proof -
  let ?g = "\<lambda>p. sint (allocation s ! p ! r)"
  have pre: "set pre \<subseteq> {0..<num_processes s}" using sub ord by blast
  have "sum ?g (set pre) \<le> sum ?g (set ord)"
  proof (rule sum_mono2)
    show "finite (set ord)" by simp
    show "set pre \<subseteq> set ord" by (rule sub)
    fix b assume "b \<in> set ord - set pre"
    then have "b < num_processes s" using ord by auto
    then show "0 \<le> ?g b" using nn wf r by (simp add: nonneg_allocationD)
  qed
  then have "sum_list (map ?g pre) \<le> sum_list (map ?g ord)"
    using dp d by (simp add: sum_list_distinct_conv_sum_set)
  then show ?thesis
    using sint_work_after[OF wf nn fit r dp pre] sint_work_after[OF wf nn fit r d ord] by simp
qed

text \<open>
  Completeness of the scan: the work vector only grows with the set of completed roles,
  so every role of a completion ordering can finish on the final work vector of the
  scan, and the scan, being stuck, has marked it.
\<close>

lemma ordering_finished:
  assumes wf: "wf_ledger s" and nn: "nonneg_allocation s" and fit: "sums_fit s"
    and t: "this t = s" and stuck: "stuck t"
    and d: "distinct ord" and sd: "set ord = {p. p < num_processes s \<and> finish t ! p}"
    and w: "work t = work_after s (available s) ord"
  shows "scan_completes s (work_after s (available s) pre) ps \<Longrightarrow> distinct (pre @ ps) \<Longrightarrow>
     set pre \<subseteq> set ord \<Longrightarrow> set ps \<subseteq> {0..<num_processes s} \<Longrightarrow> set ps \<subseteq> set ord"
proof (induction ps arbitrary: pre)
  case Nil
  then show ?case by simp
next
  case (Cons p ps)
  have p: "p < num_processes s" using Cons.prems(4) by simp
  have ordb: "set ord \<subseteq> {0..<num_processes s}" unfolding sd by auto
  have "sint (need s ! p ! r) \<le> sint (work t ! r)" if r: "r < num_resources s" for r
  proof -
    have "sint (need s ! p ! r) \<le> sint (work_after s (available s) pre ! r)"
      using Cons.prems(1) r by (simp add: list_all_iff)
    also have "\<dots> \<le> sint (work_after s (available s) ord ! r)"
    proof (rule work_after_mono[OF wf nn fit _ d _ ordb r])
      show "distinct pre" using Cons.prems(2) by simp
      show "set pre \<subseteq> set ord" by (rule Cons.prems(3))
    qed
    finally show ?thesis by (simp add: w)
  qed
  then have "can_finish (need (this t) ! p) (work t) [0..<num_resources (this t)]"
    by (simp add: can_finish_iff t)
  then have "finish t ! p" using stuck p t by (auto simp: stuck_def)
  then have pin: "p \<in> set ord" using sd p by simp
  have "set ps \<subseteq> set ord"
  proof (rule Cons.IH[of "pre @ [p]"])
    show "scan_completes s (work_after s (available s) (pre @ [p])) ps"
      using Cons.prems(1) by (simp add: work_after_snoc)
    show "distinct ((pre @ [p]) @ ps)" using Cons.prems(2) by simp
    show "set (pre @ [p]) \<subseteq> set ord" using Cons.prems(3) pin by simp
    show "set ps \<subseteq> {0..<num_processes s}" using Cons.prems(4) by simp
  qed
  with pin show ?case by simp
qed

text \<open>
  Under the same assumptions an ordering completes in the arithmetic of the program
  exactly when it completes over the integers.
\<close>

lemma scan_completes_iff_completes:
  assumes wf: "wf_ledger s" and nn: "nonneg_allocation s" and fit: "sums_fit s"
  shows "distinct (pre @ ps) \<Longrightarrow> set (pre @ ps) \<subseteq> {0..<num_processes s} \<Longrightarrow>
     scan_completes s (work_after s (available s) pre) ps =
     completes s (map sint (work_after s (available s) pre)) ps"
proof (induction ps arbitrary: pre)
  case Nil
  then show ?case by simp
next
  case (Cons p ps)
  let ?w = "work_after s (available s) pre"
  have p: "p < num_processes s" and dpre: "distinct pre" "distinct (pre @ [p])"
    and sub: "set pre \<subseteq> {0..<num_processes s}" "set (pre @ [p]) \<subseteq> {0..<num_processes s}"
    using Cons.prems by simp_all
  have len: "length ?w = num_resources s"
    using wf sub(1) by (intro length_work_after) (auto simp: wf_ledgerD)
  have lena: "length (allocation s ! p) = num_resources s" using wf p by (simp add: wf_ledgerD)
  have 1: "list_all (\<lambda>r. sint (need s ! p ! r) \<le> sint (?w ! r)) [0..<num_resources s] =
      list_all (\<lambda>r. sint (need s ! p ! r) \<le> map sint ?w ! r) [0..<num_resources s]"
    using len by (simp add: list_all_iff)
  have 2: "map2 (+) (map sint ?w) (map sint (allocation s ! p)) =
      map sint (work_after s (available s) (pre @ [p]))"
  proof (rule nth_equalityI)
    show "length (map2 (+) (map sint ?w) (map sint (allocation s ! p))) =
        length (map sint (work_after s (available s) (pre @ [p])))"
      using len lena by (simp add: work_after_snoc)
  next
    fix r assume "r < length (map2 (+) (map sint ?w) (map sint (allocation s ! p)))"
    then have r: "r < num_resources s" using len lena by simp
    have "sint (work_after s (available s) (pre @ [p]) ! r) = sint (?w ! r) + sint (allocation s ! p ! r)"
      using sint_work_after[OF wf nn fit r dpre(2) sub(2)]
        sint_work_after[OF wf nn fit r dpre(1) sub(1)] by simp
    then show "map2 (+) (map sint ?w) (map sint (allocation s ! p)) ! r =
        map sint (work_after s (available s) (pre @ [p])) ! r"
      using r len lena by (simp add: work_after_snoc)
  qed
  have "scan_completes s (work_after s (available s) (pre @ [p])) ps =
      completes s (map sint (work_after s (available s) (pre @ [p]))) ps"
    using Cons.prems by (intro Cons.IH) simp_all
  then show ?case
    by (simp add: 1 2 work_after_snoc)
qed

text \<open>
  The two directions: a ledger on which the check returns \<^verbatim>\<open>true\<close> has an
  ordering that completes; a ledger with such an ordering, no negative allocation and
  sums that fit passes the check.
\<close>

lemma isSafe_sound_scan:
  assumes wf: "wf_ledger s" and safe: "isSafe s = Some (True, s')"
  shows "\<exists>ps. distinct ps \<and> set ps = {0..<num_processes s} \<and> scan_completes s (available s) ps"
proof -
  from safe obtain t where res: "while_option progress scan_pass (isSafe_init s) = Some t"
    and fin: "list_all (\<lambda>b. b) (finish t)"
    by (auto simp: isSafe_def)
  from scan_loop_result[OF wf res] obtain ord where len: "length (finish t) = num_processes s"
    and d: "distinct ord" and sd: "set ord = {p. p < num_processes s \<and> finish t ! p}"
    and c: "scan_completes s (available s) ord"
    unfolding scan_inv_def by blast
  have "set ord = {0..<num_processes s}"
    using sd fin len by (auto simp: list_all_length)
  with d c show ?thesis by blast
qed

lemma isSafe_complete_scan:
  assumes wf: "wf_ledger s" and nn: "nonneg_allocation s" and fit: "sums_fit s"
    and dps: "distinct ps" and sps: "set ps = {0..<num_processes s}"
    and co: "scan_completes s (available s) ps"
  shows "isSafe s = Some (True, s)"
proof -
  have "length (finish (isSafe_init s)) = num_processes (this (isSafe_init s))"
    by (simp add: isSafe_init_def)
  from scan_loop_passes[OF this] obtain t where
    res: "while_option progress scan_pass (isSafe_init s) = Some t"
    by blast
  from scan_loop_result[OF wf res] obtain ord where th: "this t = s"
    and len: "length (finish t) = num_processes s"
    and d: "distinct ord" and sd: "set ord = {p. p < num_processes s \<and> finish t ! p}"
    and w: "work t = work_after s (available s) ord" and st: "stuck t"
    unfolding scan_inv_def by blast
  have "set ps \<subseteq> set ord"
  proof (rule ordering_finished[OF wf nn fit th st d sd w, of "[]"])
    show "scan_completes s (work_after s (available s) []) ps"
      using co by (simp add: work_after_Nil)
    show "distinct ([] @ ps)" using dps by simp
    show "set [] \<subseteq> set ord" by simp
    show "set ps \<subseteq> {0..<num_processes s}" using sps by simp
  qed
  then have "\<forall>p<num_processes s. finish t ! p"
    using sps sd by auto
  then have "list_all (\<lambda>b. b) (finish t)"
    using len by (simp add: list_all_length)
  then show ?thesis
    using res th by (simp add: isSafe_def)
qed

lemma completion_order_scan:
  assumes "wf_ledger s" and "nonneg_allocation s" and "sums_fit s"
  shows "completion_order s ps =
     (distinct ps \<and> set ps = {0..<num_processes s} \<and> scan_completes s (available s) ps)"
proof (cases "distinct ps \<and> set ps = {0..<num_processes s}")
  case True
  then have "scan_completes s (work_after s (available s) []) ps =
      completes s (map sint (work_after s (available s) [])) ps"
    using assms by (intro scan_completes_iff_completes) simp_all
  then show ?thesis using True by (simp add: completion_order_def work_after_Nil)
next
  case False
  then show ?thesis by (auto simp: completion_order_def)
qed

lemma isSafe_sound:
  assumes "wf_ledger s" and "nonneg_allocation s" and "sums_fit s"
    and "isSafe s = Some (True, s')"
  shows "\<exists>ps. completion_order s ps"
  using isSafe_sound_scan[OF assms(1,4)] completion_order_scan[OF assms(1-3)] by blast

lemma isSafe_complete:
  assumes "wf_ledger s" and "nonneg_allocation s" and "sums_fit s"
    and "completion_order s ps"
  shows "isSafe s = Some (True, s)"
  using assms(4) isSafe_complete_scan[OF assms(1-3)] completion_order_scan[OF assms(1-3)]
  by blast

section \<open>The result of a request\<close>

lemma exceeds_list_all:
  "exceeds req bound rs = (\<not> list_all (\<lambda>r. sint (req ! r) \<le> sint (bound ! r)) rs)"
  by (induction rs) auto

lemma requestResources_cases:
  assumes "wf_ledger s" and "p < num_processes s" and "length req = num_resources s"
  shows "requestResources s p req =
     (if grantable s p req then Some (True, tentative_commit s p req) else Some (False, s))"
proof -
  let ?tc = "tentative_commit s p req"
  obtain b where b: "isSafe ?tc = Some (b, ?tc)" using isSafe_returns by blast
  have "rollback ?tc p req = s" using assms by (rule rollback_tentative_commit)
  then show ?thesis
    using assms b
    by (simp add: requestResources_def try_allocate_eq exceeds_list_all grantable_def)
qed

section \<open>Conservation along a run\<close>

text \<open>
  In the arithmetic of the program a commit moves \<open>req[r]\<close> units from
  \<open>available[r]\<close> into column \<open>r\<close> of the allocation matrix, a release moves
  them back, and \<^verbatim>\<open>setMaximum\<close> touches neither; additions and subtractions
  cancel whether or not they wrap around.
\<close>

lemma column_sum_update:
  "p < length m \<Longrightarrow> column_sum (m[p := v]) r = column_sum m r - m ! p ! r + v ! r"
  unfolding column_sum_def
proof (induction m arbitrary: p)
  case Nil
  then show ?case by simp
next
  case (Cons row m)
  then show ?case by (cases p) simp_all
qed

lemma column_sum_zero: "column_sum (replicate np (replicate nr 0)) r = 0" if "r < nr"
  using that by (simp add: column_sum_def map_replicate_const sum_list_replicate)

lemma wf_initial:
  "length totals = nr \<Longrightarrow> wf_ledger (setTotalResources (BankersAlgorithm nr np) totals)"
  by (simp add: wf_ledger_def rows_ok_def setTotalResources_def BankersAlgorithm_def
      list_all_length)

lemma conserved_initial:
  "conserved (setTotalResources (BankersAlgorithm nr np) totals)"
  by (simp add: conserved_def setTotalResources_def BankersAlgorithm_def list_all_iff
      column_sum_zero)

lemma conserved_tentative_commit:
  assumes "wf_ledger s" and "p < num_processes s" and "length req = num_resources s"
    and "conserved s"
  shows "conserved (tentative_commit s p req)"
  using assms
  by (simp add: conserved_def tentative_commit_def list_all_iff column_sum_update wf_ledgerD)

lemma conserved_released:
  assumes "wf_ledger s" and "p < num_processes s" and "length rel = num_resources s"
    and "conserved s"
  shows "conserved (released s p rel)"
  using assms
  by (simp add: conserved_def released_def list_all_iff column_sum_update wf_ledgerD)

lemma wf_setMaximum:
  assumes "wf_ledger s" and "p < num_processes s" and "length md = num_resources s"
  shows "wf_ledger (setMaximum s p md)"
  using assms
  by (auto simp: setMaximum_eq wf_ledger_def rows_ok_update rows_okD)

lemma ledger_inv_apply_call:
  assumes "ledger_inv nr np s" and "call_ok nr np c"
  shows "\<exists>s'. apply_call s c = Some s' \<and> ledger_inv nr np s'"
proof (cases c)
  case (SetMaximum p md)
  then have "ledger_inv nr np (setMaximum s p md)"
    using assms wf_setMaximum[of s p md]
    by (auto simp: ledger_inv_def) (simp_all add: setMaximum_eq conserved_def)
  then show ?thesis using SetMaximum by simp
next
  case (Request p req)
  then have ok: "wf_ledger s" "p < num_processes s" "length req = num_resources s"
    using assms by (simp_all add: ledger_inv_def)
  have "ledger_inv nr np (tentative_commit s p req)"
    using assms(1) ok wf_tentative_commit[OF ok] conserved_tentative_commit[OF ok]
    by (simp add: ledger_inv_def) (simp add: tentative_commit_def)
  then show ?thesis
    using Request assms(1)
    by (cases "grantable s p req") (simp_all add: requestResources_cases[OF ok])
next
  case (Release p rel)
  then have ok: "wf_ledger s" "p < num_processes s" "length rel = num_resources s"
    using assms by (simp_all add: ledger_inv_def)
  have "ledger_inv nr np (released s p rel)"
    using assms(1) ok wf_released[OF ok] conserved_released[OF ok]
    by (simp add: ledger_inv_def) (simp add: released_def)
  then show ?thesis
    using Release by (simp add: releaseResources_eq[OF ok])
qed

lemma ledger_inv_run:
  assumes "ledger_inv nr np s" and "list_all (call_ok nr np) calls"
  shows "\<exists>s'. run s calls = Some s' \<and> ledger_inv nr np s'"
  using assms
proof (induction calls arbitrary: s)
  case Nil
  then show ?case by simp
next
  case (Cons c cs)
  from ledger_inv_apply_call[of nr np s c] Cons.prems obtain s1 where
    "apply_call s c = Some s1" and "ledger_inv nr np s1" by auto
  then show ?case using Cons.IH[of s1] Cons.prems by simp
qed

text \<open>
  A 32-bit sum is the integer sum when the integer sum fits; so a conserved ledger
  whose sums fit is conserved over the integers.
\<close>

lemma word_sum_of_sints:
  "a + sum_list xs = (word_of_int (sint a + sum_list (map sint xs)) :: int32)"
  by (induction xs arbitrary: a) (simp_all add: add.assoc)

lemma sint_sum_fits:
  assumes "fits_int (sint a + sum_list (map sint xs))"
  shows "sint (a + sum_list xs :: int32) = sint a + sum_list (map sint xs)"
proof -
  have s: "sint (word_of_int k :: int32) = signed_take_bit 31 k" for k
    by (simp add: sint_sbintrunc')
  have "sint (a + sum_list xs) = sint (word_of_int (sint a + sum_list (map sint xs)) :: int32)"
    by (simp only: word_sum_of_sints[of a xs])
  also have "\<dots> = signed_take_bit 31 (sint a + sum_list (map sint xs))"
    by (rule s)
  also have "\<dots> = sint a + sum_list (map sint xs)"
    using assms by (simp add: fits_int_def signed_take_bit_int_eq_self)
  finally show ?thesis .
qed

lemma conserved_int_if_fits:
  assumes "conserved s" and "sums_fit s"
  shows "conserved_int s"
proof -
  have "held_units s r = sint (total_resources s ! r)" if r: "r < num_resources s" for r
  proof -
    have fit: "fits_int (sint (available s ! r)
        + sum_list (map sint (map (\<lambda>row. row ! r) (allocation s))))"
      using sums_fitD[OF assms(2) r] by (simp add: held_units_def comp_def)
    have "total_resources s ! r = available s ! r + sum_list (map (\<lambda>row. row ! r) (allocation s))"
      using assms(1) r by (simp add: conserved_def list_all_iff column_sum_def)
    then show ?thesis
      using sint_sum_fits[OF fit] by (simp add: held_units_def comp_def)
  qed
  then show ?thesis by (simp add: conserved_int_def list_all_iff)
qed

section \<open>Completion orderings survive a release\<close>

text \<open>
  After role \<open>p\<close> released \<open>rel\<close> with \<open>0 \<le> rel \<le> allocation[p]\<close>, none of
  the three updates wraps around, the sums \<open>held_units\<close> are the old ones, and a
  completion ordering of the old ledger still works: before \<open>p\<close> the work vector is
  larger by \<open>rel\<close>, role \<open>p\<close> needs at most \<open>rel\<close> more and finds \<open>rel\<close>
  more, and after \<open>p\<close> the work vector is the old one.
\<close>

lemma released_fields:
  "num_resources (released s p rel) = num_resources s"
  "num_processes (released s p rel) = num_processes s"
  "total_resources (released s p rel) = total_resources s"
  "available (released s p rel) = map2 (+) (available s) rel"
  "allocation (released s p rel) = (allocation s)[p := map2 (-) (allocation s ! p) rel]"
  "need (released s p rel) = (need s)[p := map2 (+) (need s ! p) rel]"
  by (simp_all add: released_def)

lemma sint_add_le: "0 \<le> sint b \<Longrightarrow> sint (a + b) \<le> sint a + sint (b :: int32)"
  using sint32_bounds(1)[of a]
  by (simp add: sint_word_ariths signed_take_bit_int_less_eq_self_iff)

lemma release_bounds:
  assumes wf: "wf_ledger s" and nn: "nonneg_allocation s" and fit: "sums_fit s"
    and p: "p < num_processes s"
    and bnd: "list_all (\<lambda>r. 0 \<le> sint (rel ! r) \<and> sint (rel ! r) \<le> sint (allocation s ! p ! r))
       [0..<num_resources s]"
    and r: "r < num_resources s"
  shows "0 \<le> sint (rel ! r)" and "sint (rel ! r) \<le> sint (allocation s ! p ! r)"
    and "sint (allocation s ! p ! r - rel ! r) = sint (allocation s ! p ! r) - sint (rel ! r)"
    and "sint (available s ! r + rel ! r) = sint (available s ! r) + sint (rel ! r)"
proof -
  show 1: "0 \<le> sint (rel ! r)" and 2: "sint (rel ! r) \<le> sint (allocation s ! p ! r)"
    using bnd r by (simp_all add: list_all_iff)
  have "fits_int (sint (allocation s ! p ! r) - sint (rel ! r))"
    using 1 2 sint32_bounds(2)[of "allocation s ! p ! r"] by (simp add: fits_int_def)
  then show "sint (allocation s ! p ! r - rel ! r) = sint (allocation s ! p ! r) - sint (rel ! r)"
    by (rule sint_sub_fits)
  have "sint (available s ! r) + sum_list (map (\<lambda>q. sint (allocation s ! q ! r)) [p])
      \<le> held_units s r"
    using p by (intro partial_sum_bounds[OF wf nn _ _ r]) simp_all
  moreover have "fits_int (held_units s r)" using fit r by (rule sums_fitD)
  ultimately have "fits_int (sint (available s ! r) + sint (rel ! r))"
    using 1 2 sint32_bounds(1)[of "available s ! r"] by (simp add: fits_int_def)
  then show "sint (available s ! r + rel ! r) = sint (available s ! r) + sint (rel ! r)"
    by (rule sint_add_fits)
qed

lemma completes_released_other:
  assumes "p \<notin> set ps"
  shows "completes (released s p rel) w ps = completes s w ps"
  using assms by (induction ps arbitrary: w) (auto simp: released_fields)

lemma completes_released:
  assumes wf: "wf_ledger s" and nn: "nonneg_allocation s" and fit: "sums_fit s"
    and p: "p < num_processes s" and len: "length rel = num_resources s"
    and bnd: "list_all (\<lambda>r. 0 \<le> sint (rel ! r) \<and> sint (rel ! r) \<le> sint (allocation s ! p ! r))
       [0..<num_resources s]"
  shows "completes s w ps \<Longrightarrow> distinct ps \<Longrightarrow> p \<in> set ps \<Longrightarrow>
     \<forall>q\<in>set ps. q < num_processes s \<Longrightarrow> length w = num_resources s \<Longrightarrow>
     completes (released s p rel) (map2 (+) w (map sint rel)) ps"
proof (induction ps arbitrary: w)
  case Nil
  then show ?case by simp
next
  case (Cons q ps)
  let ?s' = "released s p rel"
  note rb = release_bounds[OF wf nn fit p bnd]
  have q: "q < num_processes s" using Cons.prems(4) by simp
  have lens: "length (allocation s ! q) = num_resources s" "length (need s ! q) = num_resources s"
    "length (allocation s ! p) = num_resources s" "length (need s ! p) = num_resources s"
    "p < length (allocation s)" "p < length (need s)"
    using wf p q by (simp_all add: wf_ledgerD)
  have needq: "\<And>r. r < num_resources s \<Longrightarrow> sint (need s ! q ! r) \<le> w ! r"
    and rest: "completes s (map2 (+) w (map sint (allocation s ! q))) ps"
    using Cons.prems(1) by (simp_all add: list_all_iff)
  show ?case
  proof (cases "q = p")
    case True
    have "sint (need ?s' ! q ! r) \<le> map2 (+) w (map sint rel) ! r" if r: "r < num_resources s" for r
    proof -
      have "sint (need s ! p ! r + rel ! r) \<le> sint (need s ! p ! r) + sint (rel ! r)"
        using rb(1)[OF r] by (rule sint_add_le)
      also have "\<dots> \<le> w ! r + sint (rel ! r)" using needq[OF r] True by simp
      finally show ?thesis
        using True r lens len Cons.prems(5) by (simp add: released_fields)
    qed
    then have "list_all (\<lambda>r. sint (need ?s' ! q ! r) \<le> map2 (+) w (map sint rel) ! r)
        [0..<num_resources ?s']"
      by (simp add: released_fields list_all_iff)
    moreover have "map2 (+) (map2 (+) w (map sint rel)) (map sint (allocation ?s' ! q))
        = map2 (+) w (map sint (allocation s ! q))"
    proof (rule nth_equalityI)
      show "length (map2 (+) (map2 (+) w (map sint rel)) (map sint (allocation ?s' ! q)))
          = length (map2 (+) w (map sint (allocation s ! q)))"
        using True lens len Cons.prems(5) by (simp add: released_fields)
    next
      fix r assume "r < length (map2 (+) (map2 (+) w (map sint rel)) (map sint (allocation ?s' ! q)))"
      then have r: "r < num_resources s"
        using True lens len Cons.prems(5) by (simp add: released_fields)
      show "map2 (+) (map2 (+) w (map sint rel)) (map sint (allocation ?s' ! q)) ! r
          = map2 (+) w (map sint (allocation s ! q)) ! r"
        using True r lens len Cons.prems(5) rb(3)[OF r] by (simp add: released_fields)
    qed
    moreover have "completes ?s' (map2 (+) w (map sint (allocation s ! q))) ps"
      using rest True Cons.prems(2) by (simp add: completes_released_other)
    ultimately show ?thesis by simp
  next
    case False
    have "sint (need s ! q ! r) \<le> w ! r + sint (rel ! r)" if r: "r < num_resources s" for r
      using needq[OF r] rb(1)[OF r] by simp
    then have "list_all (\<lambda>r. sint (need ?s' ! q ! r) \<le> map2 (+) w (map sint rel) ! r)
        [0..<num_resources ?s']"
      using False lens len Cons.prems(5)
      by (simp add: released_fields list_all_iff)
    moreover have "map2 (+) (map2 (+) w (map sint rel)) (map sint (allocation ?s' ! q))
        = map2 (+) (map2 (+) w (map sint (allocation s ! q))) (map sint rel)"
      using False lens len Cons.prems(5)
      by (intro nth_equalityI) (simp_all add: released_fields)
    moreover have "completes ?s' (map2 (+) (map2 (+) w (map sint (allocation s ! q))) (map sint rel)) ps"
      using rest False Cons.prems(2,3,4,5) lens by (intro Cons.IH) simp_all
    ultimately show ?thesis by simp
  qed
qed

lemma completion_order_released:
  assumes wf: "wf_ledger s" and nn: "nonneg_allocation s" and fit: "sums_fit s"
    and p: "p < num_processes s" and len: "length rel = num_resources s"
    and bnd: "list_all (\<lambda>r. 0 \<le> sint (rel ! r) \<and> sint (rel ! r) \<le> sint (allocation s ! p ! r))
       [0..<num_resources s]"
    and co: "completion_order s ps"
  shows "completion_order (released s p rel) ps"
proof -
  note rb = release_bounds[OF wf nn fit p bnd]
  have "completes (released s p rel) (map2 (+) (map sint (available s)) (map sint rel)) ps"
    using co p wf by (intro completes_released[OF wf nn fit p len bnd])
      (simp_all add: completion_order_def wf_ledgerD)
  moreover have "map sint (available (released s p rel))
      = map2 (+) (map sint (available s)) (map sint rel)"
    using wf len rb(4) by (intro nth_equalityI) (simp_all add: released_fields wf_ledgerD)
  ultimately show ?thesis
    using co by (simp add: completion_order_def released_fields)
qed

lemma nonneg_allocation_released:
  assumes wf: "wf_ledger s" and nn: "nonneg_allocation s" and fit: "sums_fit s"
    and p: "p < num_processes s" and len: "length rel = num_resources s"
    and bnd: "list_all (\<lambda>r. 0 \<le> sint (rel ! r) \<and> sint (rel ! r) \<le> sint (allocation s ! p ! r))
       [0..<num_resources s]"
  shows "nonneg_allocation (released s p rel)"
proof -
  note rb = release_bounds[OF wf nn fit p bnd]
  have row: "list_all (\<lambda>x. 0 \<le> sint x) (map2 (-) (allocation s ! p) rel)"
    using wf p len rb(2,3) by (simp add: list_all_length wf_ledgerD)
  have "list_all (\<lambda>x. 0 \<le> sint x) ((allocation s)[p := map2 (-) (allocation s ! p) rel] ! q)"
    if "q < length (allocation s)" for q
  proof (cases "q = p")
    case True
    then show ?thesis using row that by simp
  next
    case False
    then show ?thesis using nn that by (simp add: nonneg_allocation_def list_all_length)
  qed
  then show ?thesis
    by (simp add: nonneg_allocation_def released_fields list_all_length)
qed

lemma held_units_released:
  assumes wf: "wf_ledger s" and nn: "nonneg_allocation s" and fit: "sums_fit s"
    and p: "p < num_processes s" and len: "length rel = num_resources s"
    and bnd: "list_all (\<lambda>r. 0 \<le> sint (rel ! r) \<and> sint (rel ! r) \<le> sint (allocation s ! p ! r))
       [0..<num_resources s]"
    and r: "r < num_resources s"
  shows "held_units (released s p rel) r = held_units s r"
proof -
  note rb = release_bounds[OF wf nn fit p bnd r]
  let ?s' = "released s p rel"
  let ?A = "{0..<num_processes s}"
  have wf': "wf_ledger ?s'" using wf p len by (rule wf_released)
  have lens: "length (allocation s ! p) = num_resources s" "p < length (allocation s)"
    "length (available s) = num_resources s"
    using wf p by (simp_all add: wf_ledgerD)
  have pa: "sint (allocation ?s' ! p ! r) = sint (allocation s ! p ! r) - sint (rel ! r)"
    using lens len r rb(3) by (simp add: released_fields)
  have oth: "sint (allocation ?s' ! q ! r) = sint (allocation s ! q ! r)" if "q \<noteq> p" for q
    using that by (simp add: released_fields)
  have "(\<Sum>q\<in>?A. sint (allocation ?s' ! q ! r))
      = sint (allocation ?s' ! p ! r) + (\<Sum>q\<in>?A - {p}. sint (allocation ?s' ! q ! r))"
    using p by (intro sum.remove) simp_all
  also have "(\<Sum>q\<in>?A - {p}. sint (allocation ?s' ! q ! r))
      = (\<Sum>q\<in>?A - {p}. sint (allocation s ! q ! r))"
    by (intro sum.cong) (simp_all add: oth)
  finally have "(\<Sum>q\<in>?A. sint (allocation ?s' ! q ! r))
      = sint (allocation s ! p ! r) + (\<Sum>q\<in>?A - {p}. sint (allocation s ! q ! r))
        - sint (rel ! r)"
    by (simp add: pa)
  also have "sint (allocation s ! p ! r) + (\<Sum>q\<in>?A - {p}. sint (allocation s ! q ! r))
      = (\<Sum>q\<in>?A. sint (allocation s ! q ! r))"
    using p by (intro sum.remove[symmetric]) simp_all
  finally have "(\<Sum>q\<in>?A. sint (allocation ?s' ! q ! r))
      = (\<Sum>q\<in>?A. sint (allocation s ! q ! r)) - sint (rel ! r)" .
  moreover have "sint (available ?s' ! r) = sint (available s ! r) + sint (rel ! r)"
    using lens len r rb(4) by (simp add: released_fields)
  ultimately show ?thesis
    using held_units_sum[OF wf, of r] held_units_sum[OF wf', of r]
    by (simp add: released_fields)
qed

lemma sums_fit_released:
  assumes wf: "wf_ledger s" and nn: "nonneg_allocation s" and fit: "sums_fit s"
    and p: "p < num_processes s" and len: "length rel = num_resources s"
    and bnd: "list_all (\<lambda>r. 0 \<le> sint (rel ! r) \<and> sint (rel ! r) \<le> sint (allocation s ! p ! r))
       [0..<num_resources s]"
  shows "sums_fit (released s p rel)"
  using fit held_units_released[OF assms]
  by (simp add: sums_fit_def list_all_iff released_fields)

section \<open>Runs within the caller contract\<close>

text \<open>
  A run within the caller contract, from non-negative totals, never forms a sum that
  leaves the 32-bit range: every ledger it reaches has no negative allocation and is
  conserved over the integers, so its sums fit.
\<close>

lemma conserved_int_fits: "conserved_int s \<Longrightarrow> sums_fit s"
  using sint32_bounds by (simp add: conserved_int_def sums_fit_def list_all_iff fits_int_def)

lemma held_units_shift:
  assumes wf: "wf_ledger s" and wf': "wf_ledger s'"
    and np: "num_processes s' = num_processes s" and p: "p < num_processes s"
    and av: "sint (available s' ! r) = sint (available s ! r) + x"
    and al: "sint (allocation s' ! p ! r) = sint (allocation s ! p ! r) - x"
    and oth: "\<And>q. q \<noteq> p \<Longrightarrow> allocation s' ! q = allocation s ! q"
  shows "held_units s' r = held_units s r"
proof -
  let ?A = "{0..<num_processes s}"
  have "(\<Sum>q\<in>?A. sint (allocation s' ! q ! r))
      = sint (allocation s' ! p ! r) + (\<Sum>q\<in>?A - {p}. sint (allocation s' ! q ! r))"
    using p by (intro sum.remove) simp_all
  also have "(\<Sum>q\<in>?A - {p}. sint (allocation s' ! q ! r))
      = (\<Sum>q\<in>?A - {p}. sint (allocation s ! q ! r))"
    by (intro sum.cong) (simp_all add: oth)
  finally have "(\<Sum>q\<in>?A. sint (allocation s' ! q ! r))
      = sint (allocation s ! p ! r) + (\<Sum>q\<in>?A - {p}. sint (allocation s ! q ! r)) - x"
    by (simp add: al)
  also have "sint (allocation s ! p ! r) + (\<Sum>q\<in>?A - {p}. sint (allocation s ! q ! r))
      = (\<Sum>q\<in>?A. sint (allocation s ! q ! r))"
    using p by (intro sum.remove[symmetric]) simp_all
  finally show ?thesis
    using held_units_sum[OF wf, of r] held_units_sum[OF wf', of r] av by (simp add: np)
qed

lemma in_contract_initial:
  assumes "length totals = nr" and "list_all (\<lambda>x. 0 \<le> sint x) totals"
  shows "in_contract (setTotalResources (BankersAlgorithm nr np) totals)"
proof -
  have "sum_list (map (\<lambda>row. sint (row ! r)) (replicate np (replicate nr (0 :: int32)))) = 0"
    if "r < nr" for r
    using that by (simp add: map_replicate_const sum_list_replicate)
  then have "conserved_int (setTotalResources (BankersAlgorithm nr np) totals)"
    by (simp add: conserved_int_def held_units_def setTotalResources_def BankersAlgorithm_def
        list_all_iff)
  moreover have "nonneg_allocation (setTotalResources (BankersAlgorithm nr np) totals)"
    by (simp add: nonneg_allocation_def setTotalResources_def BankersAlgorithm_def list_all_iff)
  moreover have "available (setTotalResources (BankersAlgorithm nr np) totals) = totals"
    by (simp add: setTotalResources_def)
  ultimately show ?thesis
    using assms wf_initial[OF assms(1), of np] by (simp add: in_contract_def)
qed

lemma in_contract_setMaximum:
  assumes "in_contract s" and "p < num_processes s" and "length md = num_resources s"
  shows "in_contract (setMaximum s p md)"
proof -
  have wf: "wf_ledger s" using assms(1) by (simp add: in_contract_def)
  have "wf_ledger (setMaximum s p md)" using wf assms(2,3) by (rule wf_setMaximum)
  then show ?thesis
    using assms(1)
    by (simp add: in_contract_def)
      (simp add: setMaximum_eq[OF wf assms(2,3)] nonneg_allocation_def conserved_int_def held_units_def)
qed

lemma in_contract_released:
  assumes good: "in_contract s" and p: "p < num_processes s" and len: "length rel = num_resources s"
    and bnd: "list_all (\<lambda>r. 0 \<le> sint (rel ! r) \<and> sint (rel ! r) \<le> sint (allocation s ! p ! r))
       [0..<num_resources s]"
  shows "in_contract (released s p rel)"
proof -
  have wf: "wf_ledger s" and nn: "nonneg_allocation s" and ci: "conserved_int s"
    and av: "list_all (\<lambda>x. 0 \<le> sint x) (available s)"
    using good by (simp_all add: in_contract_def)
  have fit: "sums_fit s" using ci by (rule conserved_int_fits)
  note rb = release_bounds[OF wf nn fit p bnd]
  have "wf_ledger (released s p rel)" using wf p len by (rule wf_released)
  moreover have "nonneg_allocation (released s p rel)"
    using wf nn fit p len bnd by (rule nonneg_allocation_released)
  moreover have "conserved_int (released s p rel)"
    using ci held_units_released[OF wf nn fit p len bnd]
    by (simp add: conserved_int_def list_all_iff released_fields)
  moreover have "list_all (\<lambda>x. 0 \<le> sint x) (available (released s p rel))"
    using av wf len rb(1,4) by (simp add: released_fields list_all_length wf_ledgerD)
  ultimately show ?thesis by (simp add: in_contract_def)
qed

lemma in_contract_tentative_commit:
  assumes good: "in_contract s" and p: "p < num_processes s" and len: "length req = num_resources s"
    and pos: "list_all (\<lambda>x. 0 \<le> sint x) req"
    and le: "list_all (\<lambda>r. sint (req ! r) \<le> sint (available s ! r)) [0..<num_resources s]"
  shows "in_contract (tentative_commit s p req)"
proof -
  let ?s' = "tentative_commit s p req"
  have wf: "wf_ledger s" and nn: "nonneg_allocation s" and ci: "conserved_int s"
    and av: "list_all (\<lambda>x. 0 \<le> sint x) (available s)"
    using good by (simp_all add: in_contract_def)
  have fit: "sums_fit s" using ci by (rule conserved_int_fits)
  have wf': "wf_ledger ?s'" using wf p len by (rule wf_tentative_commit)
  have lens: "length (allocation s ! p) = num_resources s" "p < length (allocation s)"
    "length (available s) = num_resources s" "length (allocation s) = num_processes s"
    using wf p by (simp_all add: wf_ledgerD)
  have facts: "0 \<le> sint (req ! r)" "sint (req ! r) \<le> sint (available s ! r)"
    "sint (available s ! r - req ! r) = sint (available s ! r) - sint (req ! r)"
    "sint (allocation s ! p ! r + req ! r) = sint (allocation s ! p ! r) + sint (req ! r)"
    "0 \<le> sint (allocation s ! p ! r)"
    if r: "r < num_resources s" for r
  proof -
    show 1: "0 \<le> sint (req ! r)" using pos r len by (simp add: list_all_length)
    show 2: "sint (req ! r) \<le> sint (available s ! r)" using le r by (simp add: list_all_iff)
    have "fits_int (sint (available s ! r) - sint (req ! r))"
      using 1 2 sint32_bounds(2)[of "available s ! r"] by (simp add: fits_int_def)
    then show "sint (available s ! r - req ! r) = sint (available s ! r) - sint (req ! r)"
      by (rule sint_sub_fits)
    show 3: "0 \<le> sint (allocation s ! p ! r)" using nn wf p r by (rule nonneg_allocationD)
    have "sint (available s ! r) + sum_list (map (\<lambda>q. sint (allocation s ! q ! r)) [p])
        \<le> held_units s r"
      using p by (intro partial_sum_bounds[OF wf nn _ _ r]) simp_all
    moreover have "fits_int (held_units s r)" using fit r by (rule sums_fitD)
    ultimately have "fits_int (sint (allocation s ! p ! r) + sint (req ! r))"
      using 1 2 3 by (simp add: fits_int_def)
    then show "sint (allocation s ! p ! r + req ! r) = sint (allocation s ! p ! r) + sint (req ! r)"
      by (rule sint_add_fits)
  qed
  have hu: "held_units ?s' r = held_units s r" if r: "r < num_resources s" for r
  proof (rule held_units_shift[OF wf wf' _ p, where x = "- sint (req ! r)"])
    show "num_processes ?s' = num_processes s" by (simp add: tentative_commit_def)
    show "sint (available ?s' ! r) = sint (available s ! r) + - sint (req ! r)"
      using lens len r facts(3)[OF r] by (simp add: tentative_commit_def)
    show "sint (allocation ?s' ! p ! r) = sint (allocation s ! p ! r) - - sint (req ! r)"
      using lens len r facts(4)[OF r] by (simp add: tentative_commit_def)
    show "\<And>q. q \<noteq> p \<Longrightarrow> allocation ?s' ! q = allocation s ! q"
      by (simp add: tentative_commit_def)
  qed
  have "conserved_int ?s'"
    using ci hu by (simp add: conserved_int_def list_all_iff) (simp add: tentative_commit_def)
  moreover have "list_all (\<lambda>x. 0 \<le> sint x) (available ?s')"
    using lens len facts(2,3) by (simp add: tentative_commit_def list_all_length)
  moreover have "nonneg_allocation ?s'"
  proof -
    have row: "list_all (\<lambda>x. 0 \<le> sint x) (map2 (+) (allocation s ! p) req)"
      using lens len facts(1,4,5) by (simp add: list_all_length)
    have "list_all (\<lambda>x. 0 \<le> sint x) ((allocation s)[p := map2 (+) (allocation s ! p) req] ! q)"
      if "q < length (allocation s)" for q
    proof (cases "q = p")
      case True
      then show ?thesis using row that by simp
    next
      case False
      then show ?thesis using nn that by (simp add: nonneg_allocation_def list_all_length)
    qed
    then show ?thesis
      by (simp add: nonneg_allocation_def tentative_commit_def list_all_length)
  qed
  ultimately show ?thesis using wf' by (simp add: in_contract_def)
qed

lemma in_contract_apply_call:
  assumes "in_contract s" and "contract_call s c"
  shows "\<exists>s'. apply_call s c = Some s' \<and> in_contract s' \<and>
     num_resources s' = num_resources s \<and> num_processes s' = num_processes s"
proof (cases c)
  case (SetMaximum p md)
  then have ok: "p < num_processes s" "length md = num_resources s" using assms(2) by simp_all
  have wf: "wf_ledger s" using assms(1) by (simp add: in_contract_def)
  show ?thesis
    using SetMaximum in_contract_setMaximum[OF assms(1) ok]
    by (simp add: setMaximum_eq[OF wf ok])
next
  case (Request p req)
  then have ok: "p < num_processes s" "length req = num_resources s"
    and pos: "list_all (\<lambda>x. 0 \<le> sint x) req"
    using assms(2) by simp_all
  have wf: "wf_ledger s" using assms(1) by (simp add: in_contract_def)
  show ?thesis
  proof (cases "grantable s p req")
    case True
    then have "list_all (\<lambda>r. sint (req ! r) \<le> sint (available s ! r)) [0..<num_resources s]"
      by (simp add: grantable_def)
    from in_contract_tentative_commit[OF assms(1) ok pos this] show ?thesis
      using Request True
      by (simp add: requestResources_cases[OF wf ok]) (simp add: tentative_commit_def)
  next
    case False
    then show ?thesis
      using Request assms(1) by (simp add: requestResources_cases[OF wf ok])
  qed
next
  case (Release p rel)
  then have ok: "p < num_processes s" "length rel = num_resources s"
    and bnd: "list_all (\<lambda>r. 0 \<le> sint (rel ! r) \<and> sint (rel ! r) \<le> sint (allocation s ! p ! r))
        [0..<num_resources s]"
    using assms(2) by simp_all
  have wf: "wf_ledger s" using assms(1) by (simp add: in_contract_def)
  show ?thesis
    using Release in_contract_released[OF assms(1) ok bnd]
    by (simp add: releaseResources_eq[OF wf ok] released_fields)
qed

lemma in_contract_run:
  assumes "in_contract s" and "contract_run s calls"
  shows "\<exists>s'. run s calls = Some s' \<and> in_contract s'"
  using assms
proof (induction calls arbitrary: s)
  case Nil
  then show ?case by simp
next
  case (Cons c cs)
  from in_contract_apply_call[of s c] Cons.prems obtain s1 where
    s1: "apply_call s c = Some s1" "in_contract s1" by auto
  then have "contract_run s1 cs" using Cons.prems(2) by simp
  then show ?case using Cons.IH[OF s1(2)] s1(1) by simp
qed

section \<open>The claims\<close>

text \<open>
  Claim C1. For a ledger of the right shape, an existing role \<open>p\<close> and a request
  vector of \<open>num_resources\<close> entries, \<^verbatim>\<open>requestResources(p, req)\<close> returns
  \<^verbatim>\<open>true\<close> if and only if \<open>req[r] \<le> need[p][r]\<close> for all \<open>r\<close>,
  \<open>req[r] \<le> available[r]\<close> for all \<open>r\<close>, and the tentatively committed state
  (\<open>available -= req\<close>, \<open>allocation[p] += req\<close>, \<open>need[p] -= req\<close>) passes
  \<^verbatim>\<open>isSafe()\<close>. When it returns \<^verbatim>\<open>true\<close> the state after the call is that
  tentatively committed state; otherwise it is the state before the call.
\<close>

theorem requestResources_grants_iff:
  assumes "wf_ledger s" and "p < num_processes s" and "length req = num_resources s"
  shows "requestResources s p req =
     Some (grantable s p req, if grantable s p req then tentative_commit s p req else s)"
  using requestResources_cases[OF assms] by simp

theorem requestResources_grants_iff_witness:
  "wf_ledger after_P1 \<and> 1 < num_processes after_P1 \<and> length [1, 1 :: int32] = num_resources after_P1 \<and>
   grantable after_P1 1 [1, 1] \<and> requestResources after_P1 1 [1, 1] = Some (True, after_P2)"
proof -
  have wf: "wf_ledger after_P1" by (simp add: after_P1_def wf_ledger_def rows_ok_def)
  have p: "1 < num_processes after_P1" by (simp add: after_P1_def)
  have len: "length [1, 1 :: int32] = num_resources after_P1" by (simp add: after_P1_def)
  have tc: "tentative_commit after_P1 1 [1, 1] = after_P2"
    by (simp add: tentative_commit_def after_P1_def after_P2_def)
  have g: "grantable after_P1 1 [1, 1]"
    unfolding grantable_def tc by code_simp
  show ?thesis
    using requestResources_grants_iff[OF wf p len] wf p len g tc by simp
qed

text \<open>
  Claim C2. If \<^verbatim>\<open>requestResources(p, req)\<close> returns \<^verbatim>\<open>false\<close>, for whichever of
  its three reasons, the ledger after the call is the ledger before the call, field by
  field.
\<close>

theorem requestResources_denied_unchanged:
  assumes "wf_ledger s" and "p < num_processes s" and "length req = num_resources s"
    and "requestResources s p req = Some (False, s')"
  shows "s' = s"
  using assms(4) requestResources_cases[OF assms(1-3)] by (simp split: if_splits)

theorem requestResources_denied_unchanged_witness:
  "wf_ledger contended \<and> 1 < num_processes contended \<and>
   length [1 :: int32] = num_resources contended \<and>
   list_all (\<lambda>r. sint ([1 :: int32] ! r) \<le> sint (need contended ! 1 ! r)) [0..<num_resources contended] \<and>
   list_all (\<lambda>r. sint ([1 :: int32] ! r) \<le> sint (available contended ! r)) [0..<num_resources contended] \<and>
   fst (the (requestResources contended 1 [1])) = False \<and>
   snd (the (requestResources contended 1 [1])) = contended"
proof -
  have wf: "wf_ledger contended" by (simp add: contended_def wf_ledger_def rows_ok_def)
  have p: "1 < num_processes contended" by (simp add: contended_def)
  have len: "length [1 :: int32] = num_resources contended" by (simp add: contended_def)
  have pre: "list_all (\<lambda>r. sint ([1 :: int32] ! r) \<le> sint (need contended ! 1 ! r)) [0..<num_resources contended]"
    "list_all (\<lambda>r. sint ([1 :: int32] ! r) \<le> sint (available contended ! r)) [0..<num_resources contended]"
    by (simp_all add: contended_def)
  have res: "requestResources contended 1 [1] =
      Some (False, snd (the (requestResources contended 1 [1])))"
    by code_simp
  have "snd (the (requestResources contended 1 [1])) = contended"
    using requestResources_denied_unchanged[OF wf p len res] .
  moreover have "fst (the (requestResources contended 1 [1])) = False"
    by (subst res) simp
  ultimately show ?thesis using wf p len pre by simp
qed

text \<open>
  Claim C3. Start from the constructor and \<^verbatim>\<open>setTotalResources(totals)\<close> with
  \<open>num_resources\<close> totals. After every call of a finite sequence of
  \<^verbatim>\<open>requestResources\<close> and \<^verbatim>\<open>releaseResources\<close> calls (the sequence may also
  hold \<^verbatim>\<open>setMaximum\<close> calls, as \<^verbatim>\<open>initializeBankers\<close> makes them), each
  naming an existing role and passing \<open>num_resources\<close> entries, every call has
  returned and, for every resource kind \<open>r\<close>, \<open>available[r]\<close> plus the sum over
  all roles of \<open>allocation[p][r]\<close> equals \<open>total_resources[r]\<close>: always as 32-bit
  sums, the arithmetic of the program, and over the integers whenever the integer sum
  fits into 32 bits for every resource kind.
\<close>

theorem conservation:
  assumes "length totals = nr" and "list_all (call_ok nr np) calls" and "k \<le> length calls"
  shows "\<exists>s. run (setTotalResources (BankersAlgorithm nr np) totals) (take k calls) = Some s \<and>
           conserved s \<and> (sums_fit s \<longrightarrow> conserved_int s)"
proof -
  let ?s0 = "setTotalResources (BankersAlgorithm nr np) totals"
  have "ledger_inv nr np ?s0"
    using assms(1) wf_initial[of totals nr np] conserved_initial[of nr np totals]
    by (simp add: ledger_inv_def) (simp add: setTotalResources_def BankersAlgorithm_def)
  moreover have "list_all (call_ok nr np) (take k calls)"
    using assms(2) by (auto simp: list_all_iff dest: in_set_takeD)
  ultimately obtain s where "run ?s0 (take k calls) = Some s" and "conserved s"
    using ledger_inv_run[of nr np ?s0 "take k calls"] by (auto simp: ledger_inv_def)
  then show ?thesis using conserved_int_if_fits by blast
qed

theorem conservation_witness:
  "length [2, 1 :: int32] = 2 \<and>
   list_all (call_ok 2 2)
     [SetMaximum 0 [2, 1], SetMaximum 1 [1, 1], Request 0 [1, 0], Request 1 [1, 1],
      Release 1 [1, 1]] \<and>
   4 \<le> length [SetMaximum 0 [2, 1], SetMaximum 1 [1, 1], Request 0 [1, 0], Request 1 [1, 1],
      Release 1 [1, 1]] \<and>
   run (setTotalResources (BankersAlgorithm 2 2) [2, 1])
     (take 4 [SetMaximum 0 [2, 1], SetMaximum 1 [1, 1], Request 0 [1, 0], Request 1 [1, 1],
      Release 1 [1, 1]]) = Some after_P2 \<and>
   conserved after_P2 \<and> sums_fit after_P2 \<and> conserved_int after_P2"
proof -
  let ?calls = "[SetMaximum 0 [2, 1], SetMaximum 1 [1, 1], Request 0 [1, 0], Request 1 [1, 1],
      Release 1 [1, 1]]"
  have len: "length [2, 1 :: int32] = 2" by simp
  have ok: "list_all (call_ok 2 2) ?calls" by simp
  have k: "4 \<le> length ?calls" by simp
  have r: "run (setTotalResources (BankersAlgorithm 2 2) [2, 1]) (take 4 ?calls) = Some after_P2"
    by code_simp
  have fit: "sums_fit after_P2"
    by (simp add: sums_fit_def held_units_def fits_int_def after_P2_def upt_rec)
  from conservation[OF len ok k] r fit have "conserved after_P2 \<and> conserved_int after_P2"
    by simp
  with len ok k r fit show ?thesis by simp
qed



text \<open>
  Claim C5, as the code has it. \<^verbatim>\<open>setMaximum\<close> has no failure path: for an existing
  role and a vector of \<open>num_resources\<close> entries it always stores the vector as
  \<open>maximum[p]\<close> and sets \<open>need[p][r]\<close> to \<open>maxDemand[r] - allocation[p][r]\<close> in
  the 32-bit arithmetic of the program, whatever the allocation is; that is the integer
  difference whenever the integer difference fits into 32 bits. Allocation, available
  and totals stay.
\<close>

theorem setMaximum_always_commits:
  assumes "wf_ledger s" and "p < num_processes s" and "length max_demand = num_resources s"
  shows "maximum (setMaximum s p max_demand) ! p = max_demand \<and>
     list_all (\<lambda>r. need (setMaximum s p max_demand) ! p ! r =
                    max_demand ! r - allocation s ! p ! r) [0..<num_resources s] \<and>
     list_all (\<lambda>r. fits_int (sint (max_demand ! r) - sint (allocation s ! p ! r)) \<longrightarrow>
                    sint (need (setMaximum s p max_demand) ! p ! r) =
                    sint (max_demand ! r) - sint (allocation s ! p ! r)) [0..<num_resources s] \<and>
     allocation (setMaximum s p max_demand) = allocation s \<and>
     available (setMaximum s p max_demand) = available s \<and>
     total_resources (setMaximum s p max_demand) = total_resources s"
  using assms by (simp add: setMaximum_eq wf_ledgerD list_all_iff sint_sub_fits)

theorem setMaximum_always_commits_witness:
  "wf_ledger held_one \<and> 0 < num_processes held_one \<and>
   length [0 :: int32] = num_resources held_one \<and>
   sint (allocation held_one ! 0 ! 0) > sint ([0 :: int32] ! 0) \<and>
   fits_int (sint ([0 :: int32] ! 0) - sint (allocation held_one ! 0 ! 0)) \<and>
   maximum (setMaximum held_one 0 [0]) ! 0 = [0] \<and>
   need (setMaximum held_one 0 [0]) ! 0 ! 0 = - 1 \<and>
   sint (need (setMaximum held_one 0 [0]) ! 0 ! 0) = - 1"
proof -
  have wf: "wf_ledger held_one" by (simp add: held_one_def wf_ledger_def rows_ok_def)
  have p: "0 < num_processes held_one" by (simp add: held_one_def)
  have len: "length [0 :: int32] = num_resources held_one" by (simp add: held_one_def)
  have nr: "num_resources held_one = 1" by (simp add: held_one_def)
  have al: "allocation held_one ! 0 ! 0 = 1" by (simp add: held_one_def)
  show ?thesis
    using setMaximum_always_commits[OF wf p len] wf p len
    by (simp add: nr al fits_int_def)
qed

text \<open>
  Claim C5 as stated fails: role 0 holds one unit (the ledger \<open>held_one\<close>, reached
  by a granted request), and \<^verbatim>\<open>setMaximum(0, [0])\<close> returns with the new maximum
  \<open>[0]\<close> committed and the need \<open>-1\<close>.
\<close>

theorem setMaximum_below_allocation:
  "requestResources (setMaximum (setTotalResources (BankersAlgorithm 1 1) [1]) 0 [1]) 0 [1]
     = Some (True, held_one) \<and>
   sint (allocation held_one ! 0 ! 0) > sint ([0 :: int32] ! 0) \<and>
   setMaximum held_one 0 [0] = held_one\<lparr>maximum := [[0]], need := [[- 1]]\<rparr>"
  by code_simp

text \<open>
  Claim C6. The scan loop of \<^verbatim>\<open>isSafe()\<close> ends after \<open>k\<close> passes for some
  \<open>k \<le> num_processes + 1\<close>: \<^verbatim>\<open>progress\<close> holds before each of the \<open>k\<close>
  passes and fails after the last, and every pass that reports progress has marked at
  least one more role finished.
\<close>

theorem isSafe_scan_terminates:
  "\<exists>k\<le>num_processes s + 1.
      while_option progress scan_pass (isSafe_init s) = Some ((scan_pass ^^ k) (isSafe_init s)) \<and>
      (\<forall>j<k. progress ((scan_pass ^^ j) (isSafe_init s)) \<and>
         (progress ((scan_pass ^^ Suc j) (isSafe_init s)) \<longrightarrow>
            unfinished ((scan_pass ^^ Suc j) (isSafe_init s))
              < unfinished ((scan_pass ^^ j) (isSafe_init s)))) \<and>
      \<not> progress ((scan_pass ^^ k) (isSafe_init s))"
proof -
  let ?f = "isSafe_init s"
  have len: "length (finish ?f) = num_processes (this ?f)"
    by (simp add: isSafe_init_def)
  from scan_loop_passes[OF len] obtain k where k: "k \<le> unfinished ?f + 1"
    and res: "while_option progress scan_pass ?f = Some ((scan_pass ^^ k) ?f)"
    and before: "\<forall>j<k. progress ((scan_pass ^^ j) ?f)"
    and stop: "\<not> progress ((scan_pass ^^ k) ?f)"
    by blast
  have marks: "unfinished ((scan_pass ^^ Suc j) ?f) < unfinished ((scan_pass ^^ j) ?f)"
    if "progress ((scan_pass ^^ Suc j) ?f)" for j
  proof -
    have "length (finish ((scan_pass ^^ j) ?f)) = num_processes (this ((scan_pass ^^ j) ?f))"
      using len by (simp add: length_finish_funpow_scan_pass this_funpow_scan_pass)
    from scan_pass_marks[OF this] that show ?thesis by simp
  qed
  have "k \<le> num_processes s + 1" using k by (simp add: unfinished_isSafe_init)
  with res before stop marks show ?thesis by blast
qed

theorem isSafe_scan_terminates_witness:
  "num_processes after_P2 + 1 = 3 \<and>
   progress ((scan_pass ^^ 2) (isSafe_init after_P2)) \<and>
   \<not> progress ((scan_pass ^^ 3) (isSafe_init after_P2)) \<and>
   while_option progress scan_pass (isSafe_init after_P2)
     = Some ((scan_pass ^^ 3) (isSafe_init after_P2))"
proof -
  let ?f = "isSafe_init after_P2"
  have np: "num_processes after_P2 + 1 = 3" by (simp add: after_P2_def)
  have p2: "progress ((scan_pass ^^ 2) ?f)" by code_simp
  have p3: "\<not> progress ((scan_pass ^^ 3) ?f)" by code_simp
  from isSafe_scan_terminates[of after_P2] obtain k where k: "k \<le> num_processes after_P2 + 1"
    and res: "while_option progress scan_pass ?f = Some ((scan_pass ^^ k) ?f)"
    and before: "\<forall>j<k. progress ((scan_pass ^^ j) ?f)"
    and stop: "\<not> progress ((scan_pass ^^ k) ?f)"
    by blast
  have p0: "progress ((scan_pass ^^ 0) ?f)" by code_simp
  have p1: "progress ((scan_pass ^^ 1) ?f)" by code_simp
  have "k \<noteq> 0" using stop p0 by (intro notI) simp
  moreover have "k \<noteq> 1" using stop p1 by (intro notI) simp
  moreover have "k \<noteq> 2" using stop p2 by (intro notI) simp
  ultimately have "k = 3" using k np by simp
  with res np p2 p3 show ?thesis by simp
qed

text \<open>
  Claim C7, as the code has it. In a ledger of the right shape whose allocation matrix
  has no negative entry, in which \<open>available[r]\<close> plus the sum of
  \<open>allocation[p][r]\<close> over all roles fits into 32 bits for every resource kind, and
  on which \<^verbatim>\<open>isSafe()\<close> returns \<^verbatim>\<open>true\<close>, after
  \<^verbatim>\<open>releaseResources(p, rel)\<close> with \<open>0 \<le> rel[r] \<le> allocation[p][r]\<close> for all
  \<open>r\<close> the safety check still returns \<^verbatim>\<open>true\<close>.
\<close>

theorem release_preserves_safety:
  assumes "wf_ledger s" and "nonneg_allocation s" and "sums_fit s"
    and "p < num_processes s" and "length rel = num_resources s"
    and "list_all (\<lambda>r. 0 \<le> sint (rel ! r) \<and> sint (rel ! r) \<le> sint (allocation s ! p ! r))
       [0..<num_resources s]"
    and "isSafe s = Some (True, s)"
  shows "isSafe (releaseResources s p rel) = Some (True, releaseResources s p rel)"
proof -
  from isSafe_sound[OF assms(1-3,7)] obtain ps where "completion_order s ps" ..
  then have "completion_order (released s p rel) ps"
    using assms(1-6) by (intro completion_order_released)
  moreover have "wf_ledger (released s p rel)"
    using assms(1,4,5) by (rule wf_released)
  moreover have "nonneg_allocation (released s p rel)"
    using assms(1-6) by (rule nonneg_allocation_released)
  moreover have "sums_fit (released s p rel)"
    using assms(1-6) by (rule sums_fit_released)
  ultimately have "isSafe (released s p rel) = Some (True, released s p rel)"
    by (intro isSafe_complete)
  then show ?thesis
    using assms(1,4,5) by (simp add: releaseResources_eq)
qed

theorem release_preserves_safety_witness:
  "wf_ledger after_P2 \<and> nonneg_allocation after_P2 \<and> sums_fit after_P2 \<and>
   1 < num_processes after_P2 \<and> length [1, 1 :: int32] = num_resources after_P2 \<and>
   list_all (\<lambda>r. 0 \<le> sint ([1, 1 :: int32] ! r) \<and>
       sint ([1, 1 :: int32] ! r) \<le> sint (allocation after_P2 ! 1 ! r))
     [0..<num_resources after_P2] \<and>
   isSafe after_P2 = Some (True, after_P2) \<and>
   releaseResources after_P2 1 [1, 1] = after_P1 \<and>
   isSafe after_P1 = Some (True, after_P1)"
proof -
  have wf: "wf_ledger after_P2" by (simp add: after_P2_def wf_ledger_def rows_ok_def)
  have nn: "nonneg_allocation after_P2" by (simp add: after_P2_def nonneg_allocation_def)
  have fit: "sums_fit after_P2"
    by (simp add: sums_fit_def held_units_def fits_int_def after_P2_def upt_rec)
  have p: "1 < num_processes after_P2" by (simp add: after_P2_def)
  have len: "length [1, 1 :: int32] = num_resources after_P2" by (simp add: after_P2_def)
  have bnd: "list_all (\<lambda>r. 0 \<le> sint ([1, 1 :: int32] ! r) \<and>
       sint ([1, 1 :: int32] ! r) \<le> sint (allocation after_P2 ! 1 ! r))
     [0..<num_resources after_P2]" by (simp add: after_P2_def upt_rec)
  have safe: "isSafe after_P2 = Some (True, after_P2)" by code_simp
  have rel: "releaseResources after_P2 1 [1, 1] = after_P1" by code_simp
  show ?thesis
    using release_preserves_safety[OF wf nn fit p len bnd safe] wf nn fit p len bnd safe rel
    by simp
qed

text \<open>
  Claim C7 as stated, for every ledger on which \<^verbatim>\<open>isSafe()\<close> returns
  \<^verbatim>\<open>true\<close>, fails. The ledger \<open>negative_grant\<close> is reached from the
  constructor by \<^verbatim>\<open>setTotalResources\<close>, \<^verbatim>\<open>setMaximum\<close> and three granted
  requests, with no release at all; the request of role 2 is \<open>-2\<close>, which the checks
  of \<^verbatim>\<open>requestResources\<close> let pass. The ledger has the right shape, is conserved
  over the integers, and the safety check returns \<^verbatim>\<open>true\<close> on it. Role 0 holds
  one unit; after it releases that unit the safety check returns \<^verbatim>\<open>false\<close>.
\<close>

theorem release_breaks_safety:
  "run (setTotalResources (BankersAlgorithm 1 3) [0])
     [SetMaximum 0 [2], SetMaximum 1 [1], SetMaximum 2 [0],
      Request 2 [- 2], Request 0 [1], Request 1 [1]] = Some negative_grant \<and>
   wf_ledger negative_grant \<and> sums_fit negative_grant \<and> conserved_int negative_grant \<and>
   isSafe negative_grant = Some (True, negative_grant) \<and>
   list_all (\<lambda>r. 0 \<le> sint ([1 :: int32] ! r) \<and>
       sint ([1 :: int32] ! r) \<le> sint (allocation negative_grant ! 0 ! r))
     [0..<num_resources negative_grant] \<and>
   isSafe (releaseResources negative_grant 0 [1])
     = Some (False, releaseResources negative_grant 0 [1])"
proof -
  have "run (setTotalResources (BankersAlgorithm 1 3) [0])
     [SetMaximum 0 [2], SetMaximum 1 [1], SetMaximum 2 [0],
      Request 2 [- 2], Request 0 [1], Request 1 [1]] = Some negative_grant"
    by code_simp
  moreover have "wf_ledger negative_grant"
    by (simp add: negative_grant_def wf_ledger_def rows_ok_def)
  moreover have "sums_fit negative_grant"
    by (simp add: negative_grant_def sums_fit_def held_units_def fits_int_def)
  moreover have "conserved_int negative_grant"
    by (simp add: negative_grant_def conserved_int_def held_units_def)
  moreover have "isSafe negative_grant = Some (True, negative_grant)"
    by code_simp
  moreover have "list_all (\<lambda>r. 0 \<le> sint ([1 :: int32] ! r) \<and>
       sint ([1 :: int32] ! r) \<le> sint (allocation negative_grant ! 0 ! r))
     [0..<num_resources negative_grant]"
    by (simp add: negative_grant_def)
  moreover have "isSafe (releaseResources negative_grant 0 [1])
     = Some (False, releaseResources negative_grant 0 [1])"
    by code_simp
  ultimately show ?thesis by simp
qed

text \<open>
  Claim C8. A grant followed by the matching release is the identity: if
  \<^verbatim>\<open>requestResources(p, req)\<close> returns \<^verbatim>\<open>true\<close>, then
  \<^verbatim>\<open>releaseResources(p, req)\<close> on the resulting ledger gives back the ledger before
  the request.
\<close>

theorem release_after_grant:
  assumes "wf_ledger s" and "p < num_processes s" and "length req = num_resources s"
    and "requestResources s p req = Some (True, s')"
  shows "releaseResources s' p req = s"
proof -
  have s': "s' = tentative_commit s p req"
    using assms(4) requestResources_cases[OF assms(1-3)] by (simp split: if_splits)
  have "wf_ledger s'" unfolding s' using assms(1-3) by (rule wf_tentative_commit)
  moreover have "num_processes s' = num_processes s" "num_resources s' = num_resources s"
    by (simp_all add: s' tentative_commit_def)
  ultimately have "releaseResources s' p req = released s' p req"
    using assms(2,3) by (intro releaseResources_eq) simp_all
  also have "\<dots> = s" unfolding s' using assms(1-3) by (rule released_tentative_commit)
  finally show ?thesis .
qed

theorem release_after_grant_witness:
  "wf_ledger after_P1 \<and> 1 < num_processes after_P1 \<and>
   length [1, 1 :: int32] = num_resources after_P1 \<and>
   requestResources after_P1 1 [1, 1] = Some (True, after_P2) \<and>
   releaseResources after_P2 1 [1, 1] = after_P1"
proof -
  have wf: "wf_ledger after_P1" by (simp add: after_P1_def wf_ledger_def rows_ok_def)
  have p: "1 < num_processes after_P1" by (simp add: after_P1_def)
  have len: "length [1, 1 :: int32] = num_resources after_P1" by (simp add: after_P1_def)
  have res: "requestResources after_P1 1 [1, 1] = Some (True, after_P2)" by code_simp
  show ?thesis
    using release_after_grant[OF wf p len res] wf p len res by simp
qed

text \<open>
  Claim C9. The scenario of the specification: totals \<open>[2, 1]\<close>, maxima \<open>[2, 1]\<close>
  for P1 and \<open>[1, 1]\<close> for P2, no allocations. P1's request \<open>[1, 0]\<close> is granted
  and leaves \<open>available = [1, 1]\<close>; P2's request \<open>[1, 1]\<close> is then granted too and
  leaves \<open>available = [0, 0]\<close>. That ledger is safe because P2 can complete first and
  P1 after it; the order P1, P2 is not a completion ordering.
\<close>

theorem scenario_grants:
  "scenario =
     \<lparr>num_resources = 2, num_processes = 2, total_resources = [2, 1], available = [2, 1],
      maximum = [[2, 1], [1, 1]], allocation = [[0, 0], [0, 0]], need = [[2, 1], [1, 1]]\<rparr> \<and>
   requestResources scenario 0 [1, 0] = Some (True, after_P1) \<and>
   available after_P1 = [1, 1] \<and>
   requestResources after_P1 1 [1, 1] = Some (True, after_P2) \<and>
   available after_P2 = [0, 0] \<and>
   completion_order after_P2 [1, 0] \<and>
   \<not> completion_order after_P2 [0, 1]"
proof -
  have "scenario =
     \<lparr>num_resources = 2, num_processes = 2, total_resources = [2, 1], available = [2, 1],
      maximum = [[2, 1], [1, 1]], allocation = [[0, 0], [0, 0]], need = [[2, 1], [1, 1]]\<rparr>"
    by code_simp
  moreover have "requestResources scenario 0 [1, 0] = Some (True, after_P1)" by code_simp
  moreover have "available after_P1 = [1, 1]" by (simp add: after_P1_def)
  moreover have "requestResources after_P1 1 [1, 1] = Some (True, after_P2)" by code_simp
  moreover have "available after_P2 = [0, 0]" by (simp add: after_P2_def)
  moreover have "completion_order after_P2 [1, 0]"
    by (simp add: completion_order_def after_P2_def upt_rec) auto
  moreover have "\<not> completion_order after_P2 [0, 1]"
    by (simp add: completion_order_def after_P2_def upt_rec)
  ultimately show ?thesis by simp
qed

text \<open>
  Claim C10. \<^verbatim>\<open>isSafe()\<close> is read-only: it returns with the ledger it was called
  on, and neither the visit of one role nor a whole pass changes the object; they
  write only the locals \<^verbatim>\<open>work\<close>, \<^verbatim>\<open>finish\<close> and \<^verbatim>\<open>progress\<close>.
\<close>

theorem isSafe_read_only:
  "(\<exists>b. isSafe s = Some (b, s)) \<and> this (scan_role p f) = this f \<and> this (scan_pass f) = this f"
  using isSafe_returns[of s] by (simp add: this_scan_role this_scan_pass)

section \<open>Further properties\<close>

text \<open>
  Every ledger reached from non-negative totals by a run within the caller contract
  has the right shape, no negative allocation, sums that fit into 32 bits, and is
  conserved over the integers: the assumptions of the theorems for C4 and C7 hold on
  such runs.
\<close>

theorem contract_runs_fit:
  assumes "length totals = nr" and "list_all (\<lambda>x. 0 \<le> sint x) totals"
    and "contract_run (setTotalResources (BankersAlgorithm nr np) totals) calls"
  shows "\<exists>s. run (setTotalResources (BankersAlgorithm nr np) totals) calls = Some s \<and>
     wf_ledger s \<and> nonneg_allocation s \<and> sums_fit s \<and> conserved_int s"
proof -
  have "in_contract (setTotalResources (BankersAlgorithm nr np) totals)"
    using assms(1,2) by (rule in_contract_initial)
  from in_contract_run[OF this assms(3)] show ?thesis
    by (auto simp: in_contract_def conserved_int_fits)
qed

theorem contract_runs_fit_witness:
  "length [2, 1 :: int32] = 2 \<and> list_all (\<lambda>x. 0 \<le> sint x) [2, 1 :: int32] \<and>
   contract_run (setTotalResources (BankersAlgorithm 2 2) [2, 1])
     [SetMaximum 0 [2, 1], SetMaximum 1 [1, 1], Request 0 [1, 0], Request 1 [1, 1]] \<and>
   run (setTotalResources (BankersAlgorithm 2 2) [2, 1])
     [SetMaximum 0 [2, 1], SetMaximum 1 [1, 1], Request 0 [1, 0], Request 1 [1, 1]]
     = Some after_P2 \<and>
   wf_ledger after_P2 \<and> nonneg_allocation after_P2 \<and> sums_fit after_P2 \<and>
   conserved_int after_P2"
proof -
  let ?calls = "[SetMaximum 0 [2, 1], SetMaximum 1 [1, 1], Request 0 [1, 0], Request 1 [1, 1]]"
  have len: "length [2, 1 :: int32] = 2" by simp
  have pos: "list_all (\<lambda>x. 0 \<le> sint x) [2, 1 :: int32]" by simp
  have cr: "contract_run (setTotalResources (BankersAlgorithm 2 2) [2, 1]) ?calls"
    by code_simp
  have r: "run (setTotalResources (BankersAlgorithm 2 2) [2, 1]) ?calls = Some after_P2"
    by code_simp
  from contract_runs_fit[OF len pos cr] r len pos cr show ?thesis by simp
qed

text \<open>
  Outside those assumptions the 32-bit arithmetic of the program shows. On the ledger
  \<open>wrapped_scan\<close> the order role 1, role 0 completes over the integers, but the
  scan visits role 0 first, its addition wraps around, and the check returns
  \<^verbatim>\<open>false\<close>.
\<close>

theorem wrapped_scan_denies:
  "wf_ledger wrapped_scan \<and> nonneg_allocation wrapped_scan \<and> conserved wrapped_scan \<and>
   \<not> sums_fit wrapped_scan \<and> completion_order wrapped_scan [1, 0] \<and>
   isSafe wrapped_scan = Some (False, wrapped_scan)"
proof -
  have "wf_ledger wrapped_scan" by (simp add: wrapped_scan_def wf_ledger_def rows_ok_def)
  moreover have "nonneg_allocation wrapped_scan"
    by (simp add: wrapped_scan_def nonneg_allocation_def)
  moreover have "conserved wrapped_scan"
    by (simp add: wrapped_scan_def conserved_def column_sum_def)
  moreover have "\<not> sums_fit wrapped_scan"
    by (simp add: wrapped_scan_def sums_fit_def held_units_def fits_int_def)
  moreover have "completion_order wrapped_scan [1, 0]"
    by (simp add: completion_order_def wrapped_scan_def upt_rec) auto
  moreover have "isSafe wrapped_scan = Some (False, wrapped_scan)" by code_simp
  ultimately show ?thesis by simp
qed

text \<open>
  A release by a role that holds nothing, from the largest total: the ledger stays
  conserved in the arithmetic of the program, and is not conserved over the integers.
\<close>

theorem over_release_wraps:
  "run (setTotalResources (BankersAlgorithm 1 1) [2147483647]) [Release 0 [1]] =
     Some \<lparr>num_resources = 1, num_processes = 1, total_resources = [2147483647],
       available = [- 2147483648], maximum = [[0]], allocation = [[- 1]], need = [[1]]\<rparr> \<and>
   conserved \<lparr>num_resources = 1, num_processes = 1, total_resources = [2147483647],
       available = [- 2147483648], maximum = [[0]], allocation = [[- 1]], need = [[1]]\<rparr> \<and>
   \<not> conserved_int \<lparr>num_resources = 1, num_processes = 1, total_resources = [2147483647],
       available = [- 2147483648], maximum = [[0]], allocation = [[- 1]], need = [[1]]\<rparr>"
proof -
  have "run (setTotalResources (BankersAlgorithm 1 1) [2147483647]) [Release 0 [1]] =
     Some \<lparr>num_resources = 1, num_processes = 1, total_resources = [2147483647],
       available = [- 2147483648], maximum = [[0]], allocation = [[- 1]], need = [[1]]\<rparr>"
    by code_simp
  then show ?thesis
    by (simp add: conserved_def conserved_int_def held_units_def column_sum_def)
qed

text \<open>
  \<^verbatim>\<open>setMaximum\<close> with the smallest maximum for a role that holds one unit: the
  difference wraps around and the stored need is the largest \<^verbatim>\<open>int\<close>.
\<close>

theorem setMaximum_wraps:
  "setMaximum held_one 0 [- 2147483648] = held_one\<lparr>maximum := [[- 2147483648]], need := [[2147483647]]\<rparr>"
  by code_simp

text \<open>
  Denial, then retry: with totals \<open>[1, 1]\<close> and maxima \<open>[1, 1]\<close> for two roles,
  role 0 is granted both units; the request \<open>[1, 0]\<close> of role 1 is then denied and
  leaves the ledger as it was; after role 0 released both units the same request is
  granted.
\<close>

theorem denial_then_retry:
  "requestResources
     (setMaximum (setMaximum (setTotalResources (BankersAlgorithm 2 2) [1, 1]) 0 [1, 1]) 1 [1, 1])
     0 [1, 1] = Some (True, both_held) \<and>
   requestResources both_held 1 [1, 0] = Some (False, both_held) \<and>
   requestResources (releaseResources both_held 0 [1, 1]) 1 [1, 0] =
     Some (True, (releaseResources both_held 0 [1, 1])
        \<lparr>available := [0, 1], allocation := [[0, 0], [1, 0]], need := [[1, 1], [0, 1]]\<rparr>)"
  by code_simp

end
